theory Spec2Isabelle
  imports Main "HOL-Library.Word" "HOL-Library.Sublist"
begin

unbundle bit_operations_syntax

section \<open>Python strings\<close>

text \<open>
  A Python \<open>str\<close> is a sequence of Unicode code points, and \<open>ord\<close> of a character is an
  \<open>int\<close>: a string is modelled as a list of code points. The characters of a real string
  lie in \<open>0 .. 0x10FFFF\<close>; the surrogates \<open>0xD800 .. 0xDFFF\<close> are among them (a file name
  that is not valid UTF-8 reaches Python with such code points, through \<open>surrogateescape\<close>).
  \<open>ustr\<close> writes an ASCII literal.
\<close>

type_synonym pystr = "int list"

definition ustr :: "string \<Rightarrow> pystr" where
  "ustr s = map of_char s"

text \<open>
  \<open>str.isspace\<close> on one character, which is also the class \<open>\s\<close> of \<open>re\<close> on a \<open>str\<close>
  pattern and the separator of \<open>str.split()\<close> without arguments.
\<close>

definition is_space :: "int \<Rightarrow> bool" where
  "is_space c \<longleftrightarrow>
     (9 \<le> c \<and> c \<le> 13) \<or> (28 \<le> c \<and> c \<le> 32) \<or> c = 0x85 \<or> c = 0xA0 \<or> c = 0x1680
     \<or> (0x2000 \<le> c \<and> c \<le> 0x200A) \<or> c = 0x2028 \<or> c = 0x2029 \<or> c = 0x202F
     \<or> c = 0x205F \<or> c = 0x3000"

text \<open>
  The class \<open>\d\<close> of \<open>re\<close> on a \<open>str\<close> pattern: the decimal digits of Unicode (category
  Nd), which come in runs of ten; the table is the one of Unicode 14.0 (CPython 3.11), with
  the fifty mathematical digits from \<open>0x1D7CE\<close> as five runs.
\<close>

definition decimal_runs :: "int list" where
  "decimal_runs =
     [0x30, 0x660, 0x6F0, 0x7C0, 0x966, 0x9E6, 0xA66, 0xAE6, 0xB66, 0xBE6, 0xC66, 0xCE6, 0xD66,
      0xDE6, 0xE50, 0xED0, 0xF20, 0x1040, 0x1090, 0x17E0, 0x1810, 0x1946, 0x19D0, 0x1A80,
      0x1A90, 0x1B50, 0x1BB0, 0x1C40, 0x1C50, 0xA620, 0xA8D0, 0xA900, 0xA9D0, 0xA9F0, 0xAA50,
      0xABF0, 0xFF10, 0x104A0, 0x10D30, 0x11066, 0x110F0, 0x11136, 0x111D0, 0x112F0, 0x11450,
      0x114D0, 0x11650, 0x116C0, 0x11730, 0x118E0, 0x11950, 0x11C50, 0x11D50, 0x11DA0,
      0x16A60, 0x16AC0, 0x16B50, 0x1D7CE, 0x1D7D8, 0x1D7E2, 0x1D7EC, 0x1D7F6, 0x1E140,
      0x1E2F0, 0x1E950, 0x1FBF0]"

definition is_decimal :: "int \<Rightarrow> bool" where
  "is_decimal c \<longleftrightarrow> list_ex (\<lambda>s. s \<le> c \<and> c < s + 10) decimal_runs"

text \<open>\<open>[a-f0-9]\<close> under \<open>re.IGNORECASE\<close>: no other character folds into the class.\<close>

definition is_hex :: "int \<Rightarrow> bool" where
  "is_hex c \<longleftrightarrow> (48 \<le> c \<and> c \<le> 57) \<or> (97 \<le> c \<and> c \<le> 102) \<or> (65 \<le> c \<and> c \<le> 70)"

text \<open>\<open>[\s\-_\.]\<close>, the separators after a numeric prefix.\<close>

definition is_sep :: "int \<Rightarrow> bool" where
  "is_sep c \<longleftrightarrow> is_space c \<or> c = 45 \<or> c = 95 \<or> c = 46"

text \<open>\<open>s.split(sep)\<close>: the pieces between the separators, always at least one piece.\<close>

fun split_on :: "int \<Rightarrow> pystr \<Rightarrow> pystr list" where
  "split_on sep [] = [[]]"
| "split_on sep (c # cs) =
     (if c = sep then [] # split_on sep cs
      else (case split_on sep cs of
              [] \<Rightarrow> [[c]]
            | p # ps \<Rightarrow> (c # p) # ps))"

text \<open>\<open>sep.join(parts)\<close>.\<close>

fun join_on :: "int \<Rightarrow> pystr list \<Rightarrow> pystr" where
  "join_on sep [] = []"
| "join_on sep [p] = p"
| "join_on sep (p # q # ps) = p @ sep # join_on sep (q # ps)"

text \<open>
  \<open>s.split()\<close> without arguments: the maximal runs of characters that are not whitespace;
  \<open>cur\<close> is the run being read.
\<close>

fun split_ws_from :: "pystr \<Rightarrow> pystr \<Rightarrow> pystr list" where
  "split_ws_from cur [] = (if cur = [] then [] else [cur])"
| "split_ws_from cur (c # cs) =
     (if is_space c then (if cur = [] then [] else [cur]) @ split_ws_from [] cs
      else split_ws_from (cur @ [c]) cs)"

definition split_ws :: "pystr \<Rightarrow> pystr list" where
  "split_ws s = split_ws_from [] s"

text \<open>\<open>str(n)\<close> for a count.\<close>

function str_nat :: "nat \<Rightarrow> pystr" where
  "str_nat n = (if n < 10 then [48 + int n] else str_nat (n div 10) @ [48 + int (n mod 10)])"
  by pat_completeness auto
termination
  by (relation "measure id") auto

declare str_nat.simps [simp del]

definition str_int :: "int \<Rightarrow> pystr" where
  "str_int i = (if i < 0 then 45 # str_nat (nat (- i)) else str_nat (nat i))"

section \<open>pathlib: name, suffix and stem of a path\<close>

text \<open>
  \<open>Path(filename).name\<close> on POSIX: the last component of the path that is neither empty
  nor \<open>.\<close>, and the empty string when there is none. A base name as \<open>os.walk\<close> hands it
  out is its own name.
\<close>

definition path_name :: "pystr \<Rightarrow> pystr" where
  "path_name filename =
     (let parts = filter (\<lambda>x. x \<noteq> [] \<and> x \<noteq> [46]) (split_on 47 filename)
      in if parts = [] then [] else last parts)"

text \<open>\<open>s.rfind(c)\<close>: the index of the last occurrence, or \<open>-1\<close>.\<close>

definition rfind :: "int \<Rightarrow> pystr \<Rightarrow> int" where
  "rfind c s =
     (if c \<in> set s then int (length s) - 1 - int (length (takeWhile (\<lambda>x. x \<noteq> c) (rev s)))
      else - 1)"

text \<open>
  \<open>PurePath.suffix\<close> and \<open>PurePath.stem\<close> (CPython 3.11): the name is cut at its last dot
  when that dot is neither the first nor the last character.
\<close>

definition path_suffix :: "pystr \<Rightarrow> pystr" where
  "path_suffix filename =
     (let name = path_name filename; i = rfind 46 name
      in if 0 < i \<and> i < int (length name) - 1 then drop (nat i) name else [])"

definition path_stem :: "pystr \<Rightarrow> pystr" where
  "path_stem filename =
     (let name = path_name filename; i = rfind 46 name
      in if 0 < i \<and> i < int (length name) - 1 then take (nat i) name else name)"

section \<open>The regular expressions of the classifier\<close>

text \<open>
  The anchored patterns of \<open>detect_filename_pattern\<close> are sequences of one-character
  classes between \<open>^\<close> and \<open>$\<close>. \<open>re.match\<close> tries them at the start of the string, and
  \<open>$\<close> holds at the end of the string and also just before a newline that ends it.
\<close>

fun re_seq :: "(int \<Rightarrow> bool) list \<Rightarrow> pystr \<Rightarrow> bool" where
  "re_seq [] s = (s = [] \<or> s = [10])"
| "re_seq (p # ps) [] = False"
| "re_seq (p # ps) (c # cs) = (p c \<and> re_seq ps cs)"

definition lit :: "int \<Rightarrow> int \<Rightarrow> bool" where
  "lit a c \<longleftrightarrow> c = a"

definition re_date_hyphen :: "(int \<Rightarrow> bool) list" where
  "re_date_hyphen =
     replicate 4 is_decimal @ [lit 45] @ replicate 2 is_decimal @ [lit 45]
       @ replicate 2 is_decimal"

definition re_date_dot :: "(int \<Rightarrow> bool) list" where
  "re_date_dot =
     replicate 4 is_decimal @ [lit 46] @ replicate 2 is_decimal @ [lit 46]
       @ replicate 2 is_decimal"

definition re_date_us :: "(int \<Rightarrow> bool) list" where
  "re_date_us =
     replicate 2 is_decimal @ [lit 45] @ replicate 2 is_decimal @ [lit 45]
       @ replicate 4 is_decimal"

definition re_week :: "(int \<Rightarrow> bool) list" where
  "re_week =
     replicate 4 is_decimal @ [lit 45] @ [\<lambda>c. c = 87 \<or> c = 119] @ replicate 2 is_decimal"

definition re_uuid :: "(int \<Rightarrow> bool) list" where
  "re_uuid =
     replicate 8 is_hex @ [lit 45] @ replicate 4 is_hex @ [lit 45] @ replicate 4 is_hex
       @ [lit 45] @ replicate 4 is_hex @ [lit 45] @ replicate 12 is_hex"

text \<open>
  \<open>re.match(r'^(\d+[\s\-_\.]+)', name)\<close>: the group is the longest run of digits followed
  by the longest run of separators, both non-empty. The two classes are disjoint, so no
  shorter run of digits can match where the longest one does not.
\<close>

definition re_numbered_prefix :: "pystr \<Rightarrow> pystr option" where
  "re_numbered_prefix name =
     (let digits = takeWhile is_decimal name;
          seps = takeWhile is_sep (dropWhile is_decimal name)
      in if digits \<noteq> [] \<and> seps \<noteq> [] then Some (digits @ seps) else None)"

section \<open>detect_filename_pattern\<close>

definition detect_filename_pattern :: "pystr \<Rightarrow> pystr \<times> pystr" where
  "detect_filename_pattern filename =
     (let name = path_stem filename in
      if re_seq re_date_hyphen name then (ustr ''daily_note'', ustr ''YYYY-MM-DD'')
      else if re_seq re_date_dot name then (ustr ''daily_note'', ustr ''YYYY.MM.DD'')
      else if re_seq re_date_us name then (ustr ''daily_note'', ustr ''MM-DD-YYYY'')
      else if re_seq re_week name then (ustr ''weekly_note'', ustr ''YYYY-Www'')
      else if re_seq (replicate 14 is_decimal) name then
        (ustr ''zettelkasten'', ustr ''YYYYMMDDHHmmss'')
      else if re_seq (replicate 12 is_decimal) name then
        (ustr ''timestamp'', ustr ''YYYYMMDDHHmm'')
      else if re_numbered_prefix name \<noteq> None then
        (ustr ''numbered_prefix'', ustr ''NNN - [Title]'')
      else if re_seq re_uuid name then (ustr ''uuid'', ustr ''UUID'')
      else (ustr ''standard'', ustr ''[Title]''))"

section \<open>UTF-8 and MD5\<close>

text \<open>
  \<open>name.encode()\<close> is strict UTF-8: it raises \<open>UnicodeEncodeError\<close> on a surrogate.
\<close>

datatype error = UnicodeEncodeError

type_synonym byte = "8 word"

definition utf8_char :: "int \<Rightarrow> error + byte list" where
  "utf8_char c =
     (if c < 0x80 then Inr [word_of_int c]
      else if c < 0x800 then Inr [word_of_int (0xC0 + c div 64), word_of_int (0x80 + c mod 64)]
      else if 0xD800 \<le> c \<and> c < 0xE000 then Inl UnicodeEncodeError
      else if c < 0x10000 then
        Inr [word_of_int (0xE0 + c div 4096), word_of_int (0x80 + c div 64 mod 64),
             word_of_int (0x80 + c mod 64)]
      else
        Inr [word_of_int (0xF0 + c div 262144), word_of_int (0x80 + c div 4096 mod 64),
             word_of_int (0x80 + c div 64 mod 64), word_of_int (0x80 + c mod 64)])"

fun encode :: "pystr \<Rightarrow> error + byte list" where
  "encode [] = Inr []"
| "encode (c # cs) =
     (case utf8_char c of
        Inl e \<Rightarrow> Inl e
      | Inr bs \<Rightarrow> (case encode cs of Inl e \<Rightarrow> Inl e | Inr rest \<Rightarrow> Inr (bs @ rest)))"

text \<open>
  \<open>hashlib.md5\<close>, after RFC 1321: the message is padded to a multiple of 64 bytes, and
  each block of sixteen little-endian words goes through 64 steps on four 32-bit words.
\<close>

definition md5_K :: "32 word list" where
  "md5_K =
   [0xd76aa478, 0xe8c7b756, 0x242070db, 0xc1bdceee, 0xf57c0faf, 0x4787c62a, 0xa8304613,
    0xfd469501, 0x698098d8, 0x8b44f7af, 0xffff5bb1, 0x895cd7be, 0x6b901122, 0xfd987193,
    0xa679438e, 0x49b40821, 0xf61e2562, 0xc040b340, 0x265e5a51, 0xe9b6c7aa, 0xd62f105d,
    0x02441453, 0xd8a1e681, 0xe7d3fbc8, 0x21e1cde6, 0xc33707d6, 0xf4d50d87, 0x455a14ed,
    0xa9e3e905, 0xfcefa3f8, 0x676f02d9, 0x8d2a4c8a, 0xfffa3942, 0x8771f681, 0x6d9d6122,
    0xfde5380c, 0xa4beea44, 0x4bdecfa9, 0xf6bb4b60, 0xbebfbc70, 0x289b7ec6, 0xeaa127fa,
    0xd4ef3085, 0x04881d05, 0xd9d4d039, 0xe6db99e5, 0x1fa27cf8, 0xc4ac5665, 0xf4292244,
    0x432aff97, 0xab9423a7, 0xfc93a039, 0x655b59c3, 0x8f0ccc92, 0xffeff47d, 0x85845dd1,
    0x6fa87e4f, 0xfe2ce6e0, 0xa3014314, 0x4e0811a1, 0xf7537e82, 0xbd3af235, 0x2ad7d2bb,
    0xeb86d391]"

definition md5_s :: "nat list" where
  "md5_s =
   [7, 12, 17, 22, 7, 12, 17, 22, 7, 12, 17, 22, 7, 12, 17, 22,
    5, 9, 14, 20, 5, 9, 14, 20, 5, 9, 14, 20, 5, 9, 14, 20,
    4, 11, 16, 23, 4, 11, 16, 23, 4, 11, 16, 23, 4, 11, 16, 23,
    6, 10, 15, 21, 6, 10, 15, 21, 6, 10, 15, 21, 6, 10, 15, 21]"

definition rotl32 :: "nat \<Rightarrow> 32 word \<Rightarrow> 32 word" where
  "rotl32 n w = push_bit n w OR drop_bit (32 - n) w"

type_synonym md5_state = "32 word \<times> 32 word \<times> 32 word \<times> 32 word"

fun md5_step :: "32 word list \<Rightarrow> nat \<Rightarrow> md5_state \<Rightarrow> md5_state" where
  "md5_step M i (A, B, C, D) =
     (let (F, g) =
            (if i < 16 then ((B AND C) OR (NOT B AND D), i)
             else if i < 32 then ((D AND B) OR (NOT D AND C), (5 * i + 1) mod 16)
             else if i < 48 then (B XOR C XOR D, (3 * i + 5) mod 16)
             else (C XOR (B OR NOT D), (7 * i) mod 16));
          F' = F + A + md5_K ! i + M ! g
      in (D, B + rotl32 (md5_s ! i) F', B, C))"

fun le_word32 :: "byte list \<Rightarrow> 32 word" where
  "le_word32 [] = 0"
| "le_word32 (b # bs) = ucast b OR push_bit 8 (le_word32 bs)"

fun words_of :: "nat \<Rightarrow> byte list \<Rightarrow> 32 word list" where
  "words_of 0 bs = []"
| "words_of (Suc n) bs = le_word32 (take 4 bs) # words_of n (drop 4 bs)"

definition md5_block :: "byte list \<Rightarrow> md5_state \<Rightarrow> md5_state" where
  "md5_block blk st =
     (case st of (a0, b0, c0, d0) \<Rightarrow>
        (case fold (md5_step (words_of 16 blk)) [0..<64] st of
           (A, B, C, D) \<Rightarrow> (a0 + A, b0 + B, c0 + C, d0 + D)))"

fun md5_blocks :: "nat \<Rightarrow> byte list \<Rightarrow> md5_state \<Rightarrow> md5_state" where
  "md5_blocks 0 bs st = st"
| "md5_blocks (Suc n) bs st = md5_blocks n (drop 64 bs) (md5_block (take 64 bs) st)"

definition le_bytes :: "nat \<Rightarrow> 'a::len word \<Rightarrow> byte list" where
  "le_bytes n w = map (\<lambda>k. ucast (drop_bit (8 * k) w)) [0..<n]"

definition md5_pad :: "byte list \<Rightarrow> byte list" where
  "md5_pad msg =
     msg @ [0x80] @ replicate ((119 - length msg mod 64) mod 64) 0
         @ le_bytes 8 (of_nat (8 * length msg) :: 64 word)"

definition md5_digest :: "byte list \<Rightarrow> byte list" where
  "md5_digest msg =
     (let padded = md5_pad msg in
      case md5_blocks (length padded div 64) padded
             (0x67452301, 0xefcdab89, 0x98badcfe, 0x10325476) of
        (a, b, c, d) \<Rightarrow> concat (map (le_bytes 4) [a, b, c, d]))"

definition hex_digit :: "nat \<Rightarrow> int" where
  "hex_digit n = (if n < 10 then 48 + int n else 87 + int n)"

definition hex_byte :: "byte \<Rightarrow> pystr" where
  "hex_byte b = [hex_digit (unat b div 16), hex_digit (unat b mod 16)]"

definition hexdigest :: "byte list \<Rightarrow> pystr" where
  "hexdigest msg = concat (map hex_byte (md5_digest msg))"

section \<open>redact_filename\<close>

text \<open>
  The last three lines of \<open>redact_filename\<close>: the first six hexadecimal digits of the MD5
  of the encoded stem, and the number of words of the stem.
\<close>

definition standard_placeholder :: "pystr \<Rightarrow> pystr \<Rightarrow> error + pystr" where
  "standard_placeholder name ext =
     (case encode name of
        Inl e \<Rightarrow> Inl e
      | Inr bs \<Rightarrow>
          (let short_hash = take 6 (hexdigest bs);
               word_count = length (split_ws name)
           in Inr (ustr ''[Note_'' @ short_hash @ ustr ''] (~'' @ str_int (int word_count)
                   @ ustr '' words in title)'' @ ext)))"

definition redact_filename :: "pystr \<Rightarrow> pystr \<Rightarrow> error + pystr" where
  "redact_filename filename pattern_type =
     (let ext = path_suffix filename; name = path_stem filename in
      if pattern_type = ustr ''daily_note'' then
        (if 45 \<in> set name then Inr (ustr ''2024-01-15'' @ ext)
         else Inr (ustr ''2024.01.15'' @ ext))
      else if pattern_type = ustr ''weekly_note'' then Inr (ustr ''2024-W03'' @ ext)
      else if pattern_type = ustr ''zettelkasten'' then Inr (ustr ''20240115143022'' @ ext)
      else if pattern_type = ustr ''timestamp'' then Inr (ustr ''202401151430'' @ ext)
      else
        (case (if pattern_type = ustr ''numbered_prefix'' then re_numbered_prefix name
               else None) of
           Some group1 \<Rightarrow> Inr (group1 @ ustr ''[Redacted Title]'' @ ext)
         | None \<Rightarrow>
             if pattern_type = ustr ''uuid'' then
               Inr (ustr ''xxxxxxxx-xxxx-xxxx-xxxx-xxxxxxxxxxxx'' @ ext)
             else standard_placeholder name ext))"

section \<open>get_file_type_category\<close>

text \<open>
  \<open>str.lower\<close>, one character at a time. The capital ASCII letters are written out, and the
  two characters outside ASCII whose lower-case form contains an ASCII letter. Python maps
  other letters outside ASCII to characters outside ASCII; the model leaves them as they
  are, which is the same to the lookup below: every extension of its table is ASCII.
\<close>

definition lower_char :: "int \<Rightarrow> pystr" where
  "lower_char c =
     (if 65 \<le> c \<and> c \<le> 90 then [c + 32]
      else if c = 0x130 then [0x69, 0x307]
      else if c = 0x212A then [0x6B]
      else [c])"

definition lower :: "pystr \<Rightarrow> pystr" where
  "lower s = concat (map lower_char s)"

definition categories :: "(pystr \<times> pystr list) list" where
  "categories =
     [(ustr ''notes'', map ustr [''.md'', ''.markdown'', ''.txt'']),
      (ustr ''images'', map ustr [''.png'', ''.jpg'', ''.jpeg'', ''.gif'', ''.svg'', ''.webp'', ''.bmp'']),
      (ustr ''documents'',
         map ustr [''.pdf'', ''.doc'', ''.docx'', ''.xls'', ''.xlsx'', ''.ppt'', ''.pptx'']),
      (ustr ''audio'', map ustr [''.mp3'', ''.wav'', ''.m4a'', ''.ogg'', ''.flac'']),
      (ustr ''video'', map ustr [''.mp4'', ''.mov'', ''.avi'', ''.mkv'', ''.webm'']),
      (ustr ''data'', map ustr [''.json'', ''.csv'', ''.yaml'', ''.yml'', ''.xml'']),
      (ustr ''code'', map ustr [''.py'', ''.js'', ''.ts'', ''.html'', ''.css'', ''.sh'']),
      (ustr ''canvas'', map ustr [''.canvas''])]"

definition get_file_type_category :: "pystr \<Rightarrow> pystr" where
  "get_file_type_category filename =
     (let ext = lower (path_suffix filename) in
      case find (\<lambda>(category, extensions). ext \<in> set extensions) categories of
        Some (category, extensions) \<Rightarrow> category
      | None \<Rightarrow> ustr ''other'')"

section \<open>scan_vault\<close>

text \<open>
  The vault is a directory tree. A directory that can be listed has a name, the names of
  its entries that are not directories, and its subdirectories, both in the order in which
  the directory lists them. \<open>Closed\<close> is an entry that \<open>os.walk\<close> counts among the
  subdirectories of its parent and never yields: a symbolic link to a directory (the walk
  does not follow links), or a directory that cannot be listed (the walk ignores the
  error). A vault whose root is \<open>Closed\<close> cannot be listed; a root that is a symbolic link
  is walked as the directory it points to.
\<close>

datatype dir_tree =
    is_Dir: Dir (dir_name: pystr) (dir_files: "pystr list") (dir_subdirs: "dir_tree list")
  | Closed (dir_name: pystr)
where
  "dir_files (Closed n) = []"
| "dir_subdirs (Closed n) = []"

text \<open>The key \<open>type\<close> of a file entry is the field \<open>file_type\<close>.\<close>

record file_entry =
  redacted_name :: pystr
  pattern :: pystr
  file_type :: pystr
  extension :: pystr

record folder_info =
  file_count :: nat
  subfolder_count :: nat
  files :: "file_entry list"
  depth :: nat

record stats =
  total_folders :: nat
  total_files :: nat
  file_types :: "(pystr \<times> nat) list"
  patterns_found :: "(pystr \<times> nat) list"
  depth_max :: nat

record vault_structure =
  root :: pystr
  scanned_at :: pystr
  folders :: "(pystr \<times> folder_info) list"
  stats :: stats

definition SKIP_PATTERNS :: "pystr list" where
  "SKIP_PATTERNS = map ustr [''.obsidian'', ''.trash'', ''.git'', ''.DS_Store'', ''node_modules'']"

text \<open>The filter of lines 216 and 226 keeps a name when \<open>skipped\<close> is false.\<close>

definition skipped :: "pystr \<Rightarrow> bool" where
  "skipped n \<longleftrightarrow> \<not> (n \<notin> set SKIP_PATTERNS \<and> \<not> (take 1 n = [46]))"

text \<open>
  A dictionary keeps its keys in the order of their first insertion: \<open>d[k] = v\<close> replaces
  the value of a key that is there and appends a key that is not.
\<close>

fun dict_set :: "'k \<Rightarrow> 'v \<Rightarrow> ('k \<times> 'v) list \<Rightarrow> ('k \<times> 'v) list" where
  "dict_set k v [] = [(k, v)]"
| "dict_set k v ((k', v') # d) = (if k' = k then (k, v) # d else (k', v') # dict_set k v d)"

text \<open>\<open>d[k] += 1\<close> on a \<open>defaultdict(int)\<close>.\<close>

definition dict_incr :: "'k \<Rightarrow> ('k \<times> nat) list \<Rightarrow> ('k \<times> nat) list" where
  "dict_incr k d = dict_set k (case map_of d k of None \<Rightarrow> 1 | Some n \<Rightarrow> n + 1) d"

text \<open>
  \<open>os.walk\<close>, top down, with \<open>followlinks=False\<close> and \<open>onerror=None\<close>, and with the
  pruning of line 216 applied to each list of subdirectories before the walk descends: the
  triples it yields, in order. The first component is the path from the vault to the
  directory, as the list of the directory names on the way; the second one is \<open>dirs\<close> after
  the pruning, which holds the names of the \<open>Closed\<close> entries too. The walk goes into every
  entry that the pruning keeps, and yields nothing for a \<open>Closed\<close> one.
\<close>

fun walk :: "pystr list \<Rightarrow> dir_tree \<Rightarrow> (pystr list \<times> pystr list \<times> pystr list) list" where
  "walk path (Dir n fs ds) =
     (let dirs = filter (\<lambda>d. \<not> skipped (dir_name d)) ds
      in (path, map dir_name dirs, fs) # concat (map (\<lambda>d. walk (path @ [dir_name d]) d) dirs))"
| "walk path (Closed n) = []"

text \<open>
  \<open>os.path.relpath(root, vault)\<close> with \<open>.\<close> replaced by the empty string: the names on the
  way joined by \<open>os.sep\<close>.
\<close>

definition rel_path_of :: "pystr list \<Rightarrow> pystr" where
  "rel_path_of path = join_on 47 path"

text \<open>The body of the loop over \<open>valid_files\<close> (lines 237 to 250), for one file.\<close>

definition add_file :: "pystr \<Rightarrow> folder_info \<times> stats \<Rightarrow> error + folder_info \<times> stats" where
  "add_file filename acc =
     (case acc of (folder_info, st) \<Rightarrow>
        (case detect_filename_pattern filename of (pattern_type, pattern_format) \<Rightarrow>
           (case redact_filename filename pattern_type of
              Inl e \<Rightarrow> Inl e
            | Inr redacted \<Rightarrow>
                (let file_type = get_file_type_category filename;
                     entry = \<lparr>redacted_name = redacted, pattern = pattern_type,
                              file_type = file_type, extension = path_suffix filename\<rparr>
                 in Inr (folder_info\<lparr>files := files folder_info @ [entry]\<rparr>,
                         st\<lparr>file_types := dict_incr file_type (file_types st),
                            patterns_found := dict_incr pattern_type (patterns_found st),
                            total_files := total_files st + 1\<rparr>)))))"

text \<open>A loop whose body can raise stops at the first exception.\<close>

fun for_each :: "('a \<Rightarrow> 's \<Rightarrow> error + 's) \<Rightarrow> 'a list \<Rightarrow> 's \<Rightarrow> error + 's" where
  "for_each body [] s = Inr s"
| "for_each body (x # xs) s =
     (case body x s of Inl e \<Rightarrow> Inl e | Inr s' \<Rightarrow> for_each body xs s')"

text \<open>The body of the loop over \<open>os.walk\<close> (lines 218 to 254), for one directory.\<close>

definition visit :: "pystr list \<times> pystr list \<times> pystr list \<Rightarrow> vault_structure \<Rightarrow> error + vault_structure" where
  "visit item struct =
     (case item of (path, dirs, fs) \<Rightarrow>
        (let rel_path = rel_path_of path;
             depth = (if rel_path \<noteq> [] then length (split_on 47 rel_path) else 0);
             st = (stats struct)\<lparr>depth_max := max (depth_max (stats struct)) depth\<rparr>;
             valid_files = filter (\<lambda>f. \<not> skipped f) fs
         in if valid_files \<noteq> [] \<or> dirs \<noteq> [] then
              (case for_each add_file valid_files
                      (\<lparr>file_count = length valid_files, subfolder_count = length dirs,
                        files = [], depth = depth\<rparr>, st) of
                 Inl e \<Rightarrow> Inl e
               | Inr (folder_info, st') \<Rightarrow>
                   Inr (struct
                     \<lparr>folders :=
                        dict_set (if rel_path \<noteq> [] then rel_path else ustr ''/'') folder_info
                          (folders struct),
                      stats :=
                        (if rel_path \<noteq> [] then st'\<lparr>total_folders := total_folders st' + 1\<rparr>
                         else st')\<rparr>))
            else Inr (struct\<lparr>stats := st\<rparr>)))"

text \<open>
  \<open>scan_vault\<close>: \<open>now\<close> is the reading of the clock, and the name of the root of the tree
  is the last component of the path of the vault.
\<close>

definition scan_vault :: "pystr \<Rightarrow> dir_tree \<Rightarrow> error + vault_structure" where
  "scan_vault now vault =
     for_each visit (walk [] vault)
       \<lparr>root = dir_name vault, scanned_at = now, folders = [],
        stats = \<lparr>total_folders = 0, total_files = 0, file_types = [], patterns_found = [],
                 depth_max = 0\<rparr>\<rparr>"

section \<open>generate_markdown: the details of one folder\<close>

text \<open>
  The loop of lines 355 to 364 over the files of a folder: the rows it writes, with the
  files they show, and the final value of \<open>shown\<close>. \<open>seen_patterns\<close> is a set.
\<close>

definition table_row :: "file_entry \<Rightarrow> pystr" where
  "table_row file_info =
     ustr ''| `'' @ redacted_name file_info @ ustr ''` | '' @ pattern file_info @ ustr '' | ''
       @ file_type file_info @ ustr '' |'' @ [10]"

fun examples_loop :: "file_entry list \<Rightarrow> nat \<Rightarrow> pystr set \<Rightarrow> file_entry list \<times> nat" where
  "examples_loop [] shown seen_patterns = ([], shown)"
| "examples_loop (file_info # rest) shown seen_patterns =
     (if pattern file_info \<notin> seen_patterns \<or> shown < 3 then
        (if shown + 1 \<ge> 5 then ([file_info], shown + 1)
         else (case examples_loop rest (shown + 1) (insert (pattern file_info) seen_patterns) of
                 (rows, n) \<Rightarrow> (file_info # rows, n)))
      else
        (if shown \<ge> 5 then ([], shown)
         else examples_loop rest shown seen_patterns))"

text \<open>Lines 347 to 372: the section of one folder of the mapping.\<close>

definition folder_section :: "pystr \<times> folder_info \<Rightarrow> pystr" where
  "folder_section item =
     (case item of (folder_path, info) \<Rightarrow>
        (let display_path = (if folder_path \<noteq> ustr ''/'' then folder_path else ustr ''(root)'');
             md = ustr ''### '' @ [0x1F4C1] @ ustr '' `'' @ display_path @ ustr ''`'' @ [10, 10]
         in (if files info \<noteq> [] then
               (case examples_loop (files info) 0 {} of
                  (rows, shown) \<Rightarrow>
                    (let remaining = int (length (files info)) - int shown
                     in md @ ustr ''| Redacted Name | Pattern | Type |'' @ [10]
                          @ ustr ''|---------------|---------|------|'' @ [10]
                          @ concat (map table_row rows)
                          @ (if remaining > 0 then
                               [10] @ ustr ''*...and '' @ str_int remaining @ ustr '' more files*''
                                 @ [10]
                             else [])))
             else md @ ustr ''*Empty folder or contains only subfolders*'' @ [10])
            @ [10]))"

section \<open>Notions of the specification\<close>

text \<open>A surrogate code point: what strict UTF-8 refuses to encode.\<close>

definition surrogate :: "int \<Rightarrow> bool" where
  "surrogate c \<longleftrightarrow> 0xD800 \<le> c \<and> c < 0xE000"

text \<open>
  The canonical UUID shape of the specification: 8, 4, 4, 4 and 12 hexadecimal digits
  between hyphens, and nothing else.
\<close>

definition uuid_shape :: "pystr \<Rightarrow> bool" where
  "uuid_shape s \<longleftrightarrow> list_all2 (\<lambda>p c. p c) re_uuid s"

text \<open>The key of the folder mapping for the directory at a path (line 252).\<close>

definition folder_key :: "pystr list \<Rightarrow> pystr" where
  "folder_key path = (if rel_path_of path \<noteq> [] then rel_path_of path else ustr ''/'')"

text \<open>
  The trees of a file system: the name of a subdirectory is not empty and has no \<open>/\<close> in
  it, and the subdirectories of one directory have different names.
\<close>

definition valid_name :: "pystr \<Rightarrow> bool" where
  "valid_name n \<longleftrightarrow> n \<noteq> [] \<and> 47 \<notin> set n"

fun wf_tree :: "dir_tree \<Rightarrow> bool" where
  "wf_tree (Dir n fs ds) \<longleftrightarrow>
     distinct (map dir_name ds) \<and> (\<forall>d\<in>set ds. valid_name (dir_name d) \<and> wf_tree d)"
| "wf_tree (Closed n) \<longleftrightarrow> True"

text \<open>The directory at a path below a directory, going down by names.\<close>

fun dir_at :: "dir_tree \<Rightarrow> pystr list \<Rightarrow> dir_tree option" where
  "dir_at t [] = Some t"
| "dir_at (Dir n fs ds) (s # ss) =
     (case find (\<lambda>d. dir_name d = s) ds of None \<Rightarrow> None | Some d \<Rightarrow> dir_at d ss)"
| "dir_at (Closed n) (s # ss) = None"

text \<open>The tree without its skipped subdirectories, at every level.\<close>

fun prune :: "dir_tree \<Rightarrow> dir_tree" where
  "prune (Dir n fs ds) = Dir n fs (map prune (filter (\<lambda>d. \<not> skipped (dir_name d)) ds))"
| "prune (Closed n) = Closed n"

text \<open>
  The largest depth of a directory that the walk yields, for a tree whose root is at
  depth \<open>k\<close>: the walk yields the subdirectories that are neither skipped nor \<open>Closed\<close>,
  and nothing below a subdirectory that it does not yield. For a root that cannot be
  listed the value is the depth of the root.
\<close>

fun max_depth_from :: "nat \<Rightarrow> dir_tree \<Rightarrow> nat" where
  "max_depth_from k (Dir n fs ds) =
     fold max
       (map (max_depth_from (Suc k)) (filter (\<lambda>d. \<not> skipped (dir_name d) \<and> is_Dir d) ds)) k"
| "max_depth_from k (Closed n) = k"

text \<open>
  The depths of the yielded directories that hold at least one countable file, and their
  maximum, which is 0 when there is none.
\<close>

fun file_depths :: "nat \<Rightarrow> dir_tree \<Rightarrow> nat list" where
  "file_depths k (Dir n fs ds) =
     (if filter (\<lambda>f. \<not> skipped f) fs \<noteq> [] then [k] else [])
       @ concat (map (file_depths (Suc k)) (filter (\<lambda>d. \<not> skipped (dir_name d)) ds))"
| "file_depths k (Closed n) = []"

definition max_file_depth :: "dir_tree \<Rightarrow> nat" where
  "max_file_depth t = fold max (file_depths 0 t) 0"

text \<open>
  The depth that line 222 computes for the directory at a path, and what a triple of the
  walk does to the folder mapping: its key, and whether line 228 records it.
\<close>

definition item_depth :: "pystr list \<Rightarrow> nat" where
  "item_depth path =
     (if rel_path_of path \<noteq> [] then length (split_on 47 (rel_path_of path)) else 0)"

definition item_key :: "pystr list \<times> pystr list \<times> pystr list \<Rightarrow> pystr" where
  "item_key item = folder_key (fst item)"

definition recorded :: "pystr list \<times> pystr list \<times> pystr list \<Rightarrow> bool" where
  "recorded item \<longleftrightarrow> filter (\<lambda>f. \<not> skipped f) (snd (snd item)) \<noteq> [] \<or> fst (snd item) \<noteq> []"

definition files_sum :: "(pystr \<times> folder_info) list \<Rightarrow> nat" where
  "files_sum d = sum_list (map (\<lambda>item. length (files (snd item))) d)"

definition count_sum :: "(pystr \<times> folder_info) list \<Rightarrow> nat" where
  "count_sum d = sum_list (map (\<lambda>item. file_count (snd item)) d)"

section \<open>Example vaults\<close>

definition example_vault :: dir_tree where
  "example_vault =
     Dir (ustr ''MyVault'') [ustr ''.hidden'', ustr ''2024-W03.md'']
       [Dir (ustr ''Journal'') [ustr ''2024-01-15.md'', ustr ''2024-01-16.md''] [],
        Dir (ustr ''.git'') [ustr ''config''] [Dir (ustr ''objects'') [ustr ''ab''] []],
        Dir (ustr ''Inbox'') [ustr ''a1b2c3d4-e5f6-7890-abcd-ef1234567890.png'']
          [Dir (ustr ''deep'') [] [Dir (ustr ''empty'') [] []]],
        Dir (ustr ''node_modules'') [ustr ''x.js''] []]"

definition shallow_vault :: dir_tree where
  "shallow_vault = Dir (ustr ''V'') [ustr ''2024-01-15.md''] [Dir (ustr ''sub'') [] []]"

text \<open>A vault with one file and a symbolic link to a directory outside it.\<close>

definition linked_vault :: dir_tree where
  "linked_vault = Dir (ustr ''V'') [ustr ''2024-01-15.md''] [Closed (ustr ''link'')]"

definition example_now :: pystr where
  "example_now = ustr ''2026-11-04T12:00:00''"

section \<open>Notions of the claims on redaction and rendering\<close>

text \<open>A digit of \<open>hexdigest\<close>, and the literals that stand for a date, a week or an identifier.\<close>

definition is_lower_hex :: "int \<Rightarrow> bool" where
  "is_lower_hex c \<longleftrightarrow> (48 \<le> c \<and> c \<le> 57) \<or> (97 \<le> c \<and> c \<le> 102)"

definition fixed_literals :: "pystr list" where
  "fixed_literals =
     map ustr [''2024-01-15'', ''2024.01.15'', ''2024-W03'', ''20240115143022'', ''202401151430'',
               ''xxxxxxxx-xxxx-xxxx-xxxx-xxxxxxxxxxxx'']"

text \<open>The line of lines 366 to 368 for a folder of \<open>n_files\<close> files with \<open>n_shown\<close> rows.\<close>

definition more_files_line :: "nat \<Rightarrow> nat \<Rightarrow> pystr" where
  "more_files_line n_files n_shown =
     (if n_files > n_shown then
        [10] @ ustr ''*...and '' @ str_nat (n_files - n_shown) @ ustr '' more files*'' @ [10]
      else [])"

text \<open>A folder of seven notes: four plain titles, a day, a week and an identifier.\<close>

definition sample_entry :: "string \<Rightarrow> string \<Rightarrow> file_entry" where
  "sample_entry r p =
     \<lparr>redacted_name = ustr r, pattern = ustr p, file_type = ustr ''notes'', extension = ustr ''.md''\<rparr>"

definition sample_files :: "file_entry list" where
  "sample_files =
     [sample_entry ''[Note_89759e] (~1 words in title).md'' ''standard'',
      sample_entry ''[Note_59bd54] (~3 words in title).md'' ''standard'',
      sample_entry ''[Note_b78a32] (~1 words in title).md'' ''standard'',
      sample_entry ''[Note_1f55bf] (~3 words in title).md'' ''standard'',
      sample_entry ''2024-01-15.md'' ''daily_note'',
      sample_entry ''2024-W03.md'' ''weekly_note'',
      sample_entry ''xxxxxxxx-xxxx-xxxx-xxxx-xxxxxxxxxxxx.md'' ''uuid'']"

definition sample_folder :: folder_info where
  "sample_folder = \<lparr>file_count = 7, subfolder_count = 0, files = sample_files, depth = 1\<rparr>"

definition sample_rows :: "file_entry list" where
  "sample_rows =
     [sample_entry ''[Note_89759e] (~1 words in title).md'' ''standard'',
      sample_entry ''[Note_59bd54] (~3 words in title).md'' ''standard'',
      sample_entry ''[Note_b78a32] (~1 words in title).md'' ''standard'',
      sample_entry ''2024-01-15.md'' ''daily_note'',
      sample_entry ''2024-W03.md'' ''weekly_note'']"

section \<open>Lemmas on strings and paths\<close>

lemma split_on_no_sep: "sep \<notin> set s \<Longrightarrow> split_on sep s = [s]"
  by (induction s) auto





lemma utf8_char_ok: "(\<exists>bs. utf8_char c = Inr bs) \<longleftrightarrow> \<not> surrogate c"
  by (auto simp: utf8_char_def surrogate_def)

lemma encode_ok: "(\<exists>bs. encode s = Inr bs) \<longleftrightarrow> (\<forall>c\<in>set s. \<not> surrogate c)"
proof (induction s)
  case Nil
  show ?case by simp
next
  case (Cons c s)
  show ?case
  proof (cases "utf8_char c")
    case (Inl e)
    with utf8_char_ok [of c] show ?thesis by auto
  next
    case (Inr bs)
    with utf8_char_ok [of c] have "\<not> surrogate c" by auto
    with Inr Cons show ?thesis by (cases "encode s") auto
  qed
qed

lemma standard_placeholder_ok:
  "(\<exists>r. standard_placeholder name ext = Inr r) \<longleftrightarrow> (\<forall>c\<in>set name. \<not> surrogate c)"
  using encode_ok [of name]
  by (auto simp: standard_placeholder_def Let_def split: sum.splits)

lemma split_on_not_Nil: "split_on sep s \<noteq> []"
  by (induction s) (auto split: list.splits)

lemma split_on_append:
  "sep \<notin> set p \<Longrightarrow> split_on sep (p @ sep # r) = p # split_on sep r"
  by (induction p) (auto split: list.splits)

lemma split_join:
  "path \<noteq> [] \<Longrightarrow> \<forall>n\<in>set path. sep \<notin> set n \<Longrightarrow> split_on sep (join_on sep path) = path"
proof (induction sep path rule: join_on.induct)
  case (1 sep)
  then show ?case by simp
next
  case (2 sep p)
  then show ?case by (simp add: split_on_no_sep)
next
  case (3 sep p q ps)
  then show ?case by (simp add: split_on_append)
qed

lemma join_hd:
  "path \<noteq> [] \<Longrightarrow> \<forall>n\<in>set path. n \<noteq> [] \<and> sep \<notin> set n \<Longrightarrow>
     join_on sep path \<noteq> [] \<and> hd (join_on sep path) \<noteq> sep"
  by (induction sep path rule: join_on.induct) (auto simp: hd_append)

lemma join_nonempty:
  "path \<noteq> [] \<Longrightarrow> \<forall>n\<in>set path. valid_name n \<Longrightarrow>
     join_on 47 path \<noteq> [] \<and> hd (join_on 47 path) \<noteq> 47"
  using join_hd [of path 47] by (simp add: valid_name_def)

lemma folder_key_valid:
  assumes "path \<noteq> []" "\<forall>n\<in>set path. valid_name n"
  shows "folder_key path = join_on 47 path" "folder_key path \<noteq> ustr ''/''"
  using join_nonempty [OF assms]
  by (auto simp: folder_key_def rel_path_of_def ustr_def)

lemma folder_key_root: "folder_key [] = ustr ''/''"
  by (simp add: folder_key_def rel_path_of_def)

lemma folder_key_inj:
  assumes "\<forall>n\<in>set p. valid_name n" "\<forall>n\<in>set q. valid_name n" "folder_key p = folder_key q"
  shows "p = q"
proof (cases "p = []")
  case True
  show ?thesis
  proof (cases "q = []")
    case True
    with \<open>p = []\<close> show ?thesis by simp
  next
    case False
    with folder_key_valid(2) [OF False assms(2)] assms(3) True folder_key_root
    show ?thesis by simp
  qed
next
  case False
  show ?thesis
  proof (cases "q = []")
    case True
    with folder_key_valid(2) [OF False assms(1)] assms(3) folder_key_root
    show ?thesis by simp
  next
    case q: False
    have "join_on 47 p = join_on 47 q"
      using folder_key_valid(1) [OF False assms(1)] folder_key_valid(1) [OF q assms(2)] assms(3)
      by simp
    then have "split_on 47 (join_on 47 p) = split_on 47 (join_on 47 q)" by simp
    moreover have "split_on 47 (join_on 47 p) = p"
      using False assms(1) by (intro split_join) (auto simp: valid_name_def)
    moreover have "split_on 47 (join_on 47 q) = q"
      using q assms(2) by (intro split_join) (auto simp: valid_name_def)
    ultimately show ?thesis by simp
  qed
qed

lemma item_depth_valid:
  assumes "\<forall>n\<in>set path. valid_name n"
  shows "item_depth path = length path"
proof (cases "path = []")
  case True
  then show ?thesis by (simp add: item_depth_def rel_path_of_def)
next
  case False
  have "split_on 47 (join_on 47 path) = path"
    using False assms by (intro split_join) (auto simp: valid_name_def)
  with join_nonempty [OF False assms] show ?thesis
    by (simp add: item_depth_def rel_path_of_def)
qed

section \<open>Lemmas on the classifier\<close>

lemma re_seq_length: "re_seq ps s \<Longrightarrow> length s = length ps \<or> length s = Suc (length ps)"
  by (induction ps s rule: re_seq.induct) auto

lemma re_seq_exact: "list_all2 (\<lambda>p c. p c) ps s \<Longrightarrow> re_seq ps s"
  by (induction ps s rule: re_seq.induct) auto

lemma all2_replicate:
  "list_all2 (\<lambda>p c. p c) (replicate n q) cs \<longleftrightarrow> length cs = n \<and> (\<forall>c\<in>set cs. q c)"
proof (induction n arbitrary: cs)
  case 0
  show ?case by auto
next
  case (Suc n)
  show ?case by (cases cs) (auto simp: Suc)
qed

lemma uuid_shape_length: "uuid_shape s \<Longrightarrow> length s = 36"
  by (auto simp: uuid_shape_def re_uuid_def dest: list_all2_lengthD)

lemma all2_appendD:
  "list_all2 P (xs @ ys) zs \<Longrightarrow> \<exists>us vs. zs = us @ vs \<and> list_all2 P xs us \<and> list_all2 P ys vs"
  by (auto simp: list_all2_append1)

lemma uuid_shape_head:
  assumes "uuid_shape s"
  obtains a b where "s = a @ 45 # b" "length a = 8" "\<forall>c\<in>set a. is_hex c"
proof -
  from assms have "list_all2 (\<lambda>p c. p c) (replicate 8 is_hex @ ([lit 45] @
      (replicate 4 is_hex @ [lit 45] @ replicate 4 is_hex
          @ [lit 45] @ replicate 4 is_hex @ [lit 45] @ replicate 12 is_hex))) s"
    by (simp add: uuid_shape_def re_uuid_def)
  from all2_appendD [OF this] obtain a r where a: "s = a @ r"
    "list_all2 (\<lambda>p c. p c) (replicate 8 is_hex) a"
    and r: "list_all2 (\<lambda>p c. p c) ([lit 45] @
      (replicate 4 is_hex @ [lit 45] @ replicate 4 is_hex
          @ [lit 45] @ replicate 4 is_hex @ [lit 45] @ replicate 12 is_hex)) r"
    by blast
  from all2_appendD [OF r] obtain x b where "r = x @ b" "list_all2 (\<lambda>p c. p c) [lit 45] x"
    by blast
  then have "r = 45 # b"
    by (auto simp: list_all2_Cons1 lit_def)
  with a that show thesis by (auto simp: all2_replicate)
qed

lemma is_decimal_ascii: "c < 0x660 \<Longrightarrow> is_decimal c \<longleftrightarrow> 48 \<le> c \<and> c \<le> 57"
  by (auto simp: is_decimal_def decimal_runs_def)

lemma hex_decimal: "is_hex c \<Longrightarrow> is_decimal c \<longleftrightarrow> 48 \<le> c \<and> c \<le> 57"
  by (rule is_decimal_ascii) (auto simp: is_hex_def)

lemma hex_letter_not_sep: "is_hex c \<Longrightarrow> \<not> is_decimal c \<Longrightarrow> \<not> is_sep c"
  by (auto simp: hex_decimal is_hex_def is_sep_def is_space_def)

lemma numbered_prefix_uuid:
  assumes "\<forall>c\<in>set a. is_hex c" "a \<noteq> []"
  shows "re_numbered_prefix (a @ 45 # b) \<noteq> None \<longleftrightarrow> (\<forall>c\<in>set a. 48 \<le> c \<and> c \<le> 57)"
proof (cases "\<forall>c\<in>set a. is_decimal c")
  case True
  have "\<not> is_decimal 45" by (simp add: is_decimal_ascii)
  with True have "takeWhile is_decimal (a @ 45 # b) = a" "dropWhile is_decimal (a @ 45 # b) = 45 # b"
    by (simp_all add: takeWhile_append2 dropWhile_append2)
  moreover have "is_sep 45" by (simp add: is_sep_def)
  ultimately have "re_numbered_prefix (a @ 45 # b) \<noteq> None"
    using assms(2) by (simp add: re_numbered_prefix_def Let_def)
  with True assms(1) show ?thesis by (auto simp: hex_decimal)
next
  case False
  then have d: "dropWhile is_decimal (a @ 45 # b) = dropWhile is_decimal a @ 45 # b"
    and n: "dropWhile is_decimal a \<noteq> []"
    by (auto simp: dropWhile_append1)
  from n have "hd (dropWhile is_decimal a) \<in> set a" "\<not> is_decimal (hd (dropWhile is_decimal a))"
    using hd_dropWhile [OF n] set_dropWhileD [of _ is_decimal a] hd_in_set [OF n] by auto
  with assms(1) have "\<not> is_sep (hd (dropWhile is_decimal a))"
    using hex_letter_not_sep [of "hd (dropWhile is_decimal a)"] by blast
  with n d have "takeWhile is_sep (dropWhile is_decimal (a @ 45 # b)) = []"
    by (cases "dropWhile is_decimal a") auto
  then have "re_numbered_prefix (a @ 45 # b) = None"
    by (simp add: re_numbered_prefix_def Let_def)
  with False assms(1) show ?thesis by (auto simp: hex_decimal)
qed

section \<open>Lemmas on the walk\<close>

lemma walk_prefix: "item \<in> set (walk p t) \<Longrightarrow> prefix p (fst item)"
proof (induction p t arbitrary: item rule: walk.induct)
  case (1 path n fs ds)
  from "1.prems" consider "fst item = path"
    | d where "d \<in> set ds" "\<not> skipped (dir_name d)" "item \<in> set (walk (path @ [dir_name d]) d)"
    by (auto simp: Let_def)
  then show ?case
  proof cases
    case 1
    then show ?thesis by simp
  next
    case 2
    with "1.IH" [of "filter (\<lambda>d. \<not> skipped (dir_name d)) ds" d item]
    have "prefix (path @ [dir_name d]) (fst item)" by simp
    then show ?thesis by (rule append_prefixD)
  qed
next
  case (2 path n)
  then show ?case by simp
qed

lemma walk_valid:
  "wf_tree t \<Longrightarrow> \<forall>n\<in>set p. valid_name n \<Longrightarrow> item \<in> set (walk p t) \<Longrightarrow>
     \<forall>n\<in>set (fst item). valid_name n"
proof (induction p t arbitrary: item rule: walk.induct)
  case (1 path n fs ds)
  from "1.prems"(3) consider "fst item = path"
    | d where "d \<in> set ds" "\<not> skipped (dir_name d)" "item \<in> set (walk (path @ [dir_name d]) d)"
    by (auto simp: Let_def)
  then show ?case
  proof cases
    case 1
    with "1.prems"(2) show ?thesis by simp
  next
    case 2
    with "1.prems"(1) have "valid_name (dir_name d)" "wf_tree d" by auto
    with "1.IH" [of "filter (\<lambda>d. \<not> skipped (dir_name d)) ds" d item] 2 "1.prems"(2)
    show ?thesis by simp
  qed
next
  case (2 path n)
  then show ?case by simp
qed

lemma walk_children_distinct:
  assumes "distinct (map dir_name dirs)"
    and "\<forall>d\<in>set dirs. distinct (map fst (walk (p @ [dir_name d]) d))"
  shows "distinct (map fst (concat (map (\<lambda>d. walk (p @ [dir_name d]) d) dirs)))"
  using assms
proof (induction dirs)
  case Nil
  then show ?case by simp
next
  case (Cons d dirs)
  have "fst a \<noteq> fst b"
    if a: "a \<in> set (walk (p @ [dir_name d]) d)"
      and b: "b \<in> set (walk (p @ [dir_name d']) d')" and d': "d' \<in> set dirs" for a b d'
  proof
    assume eq: "fst a = fst b"
    from walk_prefix [OF a] walk_prefix [OF b] eq
    have "prefix (p @ [dir_name d]) (fst a)" "prefix (p @ [dir_name d']) (fst a)" by simp_all
    then have "dir_name d = dir_name d'"
      by (auto simp: prefix_def append_eq_append_conv2 Cons_eq_append_conv append_eq_Cons_conv)
    with Cons.prems(1) d' show False by force
  qed
  then have "set (map fst (walk (p @ [dir_name d]) d))
      \<inter> set (map fst (concat (map (\<lambda>d. walk (p @ [dir_name d]) d) dirs))) = {}"
    by fastforce
  with Cons show ?case by simp
qed

lemma walk_distinct: "wf_tree t \<Longrightarrow> distinct (map fst (walk p t))"
proof (induction p t rule: walk.induct)
  case (1 path n fs ds)
  let ?dirs = "filter (\<lambda>d. \<not> skipped (dir_name d)) ds"
  have "distinct (map dir_name ?dirs)"
    using "1.prems" by (simp add: distinct_map_filter)
  moreover have "\<forall>d\<in>set ?dirs. distinct (map fst (walk (path @ [dir_name d]) d))"
    using "1.IH" [of ?dirs] "1.prems" by simp
  ultimately have "distinct (map fst (concat (map (\<lambda>d. walk (path @ [dir_name d]) d) ?dirs)))"
    by (rule walk_children_distinct)
  moreover have "path \<noteq> fst item"
    if "item \<in> set (concat (map (\<lambda>d. walk (path @ [dir_name d]) d) ?dirs))" for item
  proof -
    from that obtain d where "item \<in> set (walk (path @ [dir_name d]) d)" by auto
    from walk_prefix [OF this] show ?thesis by (auto simp: prefix_def)
  qed
  ultimately show ?case by (auto simp: Let_def)
next
  case (2 path n)
  show ?case by simp
qed

lemma find_distinct:
  "d \<in> set ds \<Longrightarrow> distinct (map dir_name ds) \<Longrightarrow> find (\<lambda>x. dir_name x = dir_name d) ds = Some d"
  by (induction ds) force+

lemma walk_dir_at:
  "wf_tree t \<Longrightarrow> item \<in> set (walk p t) \<Longrightarrow>
     \<exists>rest d. fst item = p @ rest \<and> dir_at t rest = Some d
       \<and> fst (snd item) = map dir_name (filter (\<lambda>d. \<not> skipped (dir_name d)) (dir_subdirs d))
       \<and> snd (snd item) = dir_files d"
proof (induction p t arbitrary: item rule: walk.induct)
  case (1 path n fs ds)
  from "1.prems"(2) consider
    "item = (path, map dir_name (filter (\<lambda>d. \<not> skipped (dir_name d)) ds), fs)"
    | d where "d \<in> set ds" "\<not> skipped (dir_name d)" "item \<in> set (walk (path @ [dir_name d]) d)"
    by (auto simp: Let_def)
  then show ?case
  proof cases
    case 1
    then have "fst item = path @ [] \<and> dir_at (Dir n fs ds) [] = Some (Dir n fs ds)
       \<and> fst (snd item) = map dir_name (filter (\<lambda>d. \<not> skipped (dir_name d)) (dir_subdirs (Dir n fs ds)))
       \<and> snd (snd item) = dir_files (Dir n fs ds)" by simp
    then show ?thesis by blast
  next
    case 2
    with "1.prems"(1) have "wf_tree d" by auto
    with "1.IH" [of "filter (\<lambda>d. \<not> skipped (dir_name d)) ds" d item] 2
    obtain rest d' where r: "fst item = (path @ [dir_name d]) @ rest" "dir_at d rest = Some d'"
      "fst (snd item) = map dir_name (filter (\<lambda>d. \<not> skipped (dir_name d)) (dir_subdirs d'))"
      "snd (snd item) = dir_files d'" by auto
    from find_distinct [OF 2(1)] "1.prems"(1)
    have "find (\<lambda>x. dir_name x = dir_name d) ds = Some d" by simp
    with r have "fst item = path @ (dir_name d # rest) \<and> dir_at (Dir n fs ds) (dir_name d # rest) = Some d'
       \<and> fst (snd item) = map dir_name (filter (\<lambda>d. \<not> skipped (dir_name d)) (dir_subdirs d'))
       \<and> snd (snd item) = dir_files d'" by simp
    then show ?thesis by blast
  qed
next
  case (2 path n)
  then show ?case by simp
qed

lemma dir_at_valid:
  "wf_tree t \<Longrightarrow> dir_at t path = Some d \<Longrightarrow> \<forall>n\<in>set path. valid_name n"
proof (induction t path rule: dir_at.induct)
  case (1 t)
  then show ?case by simp
next
  case (2 n fs ds s ss)
  from "2.prems"(2) obtain d' where f: "find (\<lambda>d. dir_name d = s) ds = Some d'"
    and at: "dir_at d' ss = Some d"
    by (auto split: option.splits)
  from f have "d' \<in> set ds" "dir_name d' = s"
    by (auto simp: find_Some_iff)
  with "2.prems"(1) have "valid_name s" "wf_tree d'" by auto
  with "2.IH" [OF f] at show ?case by simp
next
  case (3 n s ss)
  then show ?case by simp
qed

lemma walk_prune: "walk p (prune t) = walk p t"
proof (induction p t rule: walk.induct)
  case (1 path n fs ds)
  let ?keep = "\<lambda>d. \<not> skipped (dir_name d)"
  have name: "dir_name (prune d) = dir_name d" for d by (cases d) simp_all
  have f: "filter ?keep (map prune (filter ?keep ds)) = map prune (filter ?keep ds)"
    by (induction ds) (auto simp: name)
  have m: "map (\<lambda>d. walk (path @ [dir_name d]) (prune d)) (filter ?keep ds)
      = map (\<lambda>d. walk (path @ [dir_name d]) d) (filter ?keep ds)"
    by (rule map_cong [OF refl]) (use "1.IH" [of "filter ?keep ds"] in simp)
  show ?case by (simp add: Let_def f name comp_def m)
next
  case (2 path n)
  show ?case by simp
qed

section \<open>Lemmas on the scan\<close>

subsection \<open>The loop over the files\<close>

lemma add_file_effect:
  "add_file f (fi, st) = Inr (fi', st') \<Longrightarrow>
     length (files fi') = Suc (length (files fi)) \<and> file_count fi' = file_count fi
     \<and> total_files st' = Suc (total_files st) \<and> depth_max st' = depth_max st
     \<and> total_folders st' = total_folders st"
  unfolding add_file_def Let_def
  by (auto split: prod.splits sum.splits)

lemma add_files_effect:
  "for_each add_file fs (fi, st) = Inr (fi', st') \<Longrightarrow>
     length (files fi') = length (files fi) + length fs \<and> file_count fi' = file_count fi
     \<and> total_files st' = total_files st + length fs \<and> depth_max st' = depth_max st
     \<and> total_folders st' = total_folders st"
proof (induction fs arbitrary: fi st)
  case Nil
  then show ?case by simp
next
  case (Cons f fs)
  from Cons.prems obtain fi1 st1 where a: "add_file f (fi, st) = Inr (fi1, st1)"
    and r: "for_each add_file fs (fi1, st1) = Inr (fi', st')"
    by (auto split: sum.splits)
  from add_file_effect [OF a] Cons.IH [OF r] show ?case by simp
qed

subsection \<open>One directory\<close>

lemma visit_effect:
  assumes "visit item s = Inr s'"
  shows "depth_max (stats s') = max (depth_max (stats s)) (item_depth (fst item))"
    and "recorded item \<Longrightarrow>
           \<exists>fi. folders s' = dict_set (item_key item) fi (folders s)
             \<and> file_count fi = length (files fi)
             \<and> total_files (stats s') = total_files (stats s) + length (files fi)"
    and "\<not> recorded item \<Longrightarrow>
           folders s' = folders s \<and> total_files (stats s') = total_files (stats s)"
proof -
  obtain path dirs fs where item: "item = (path, dirs, fs)" by (cases item) auto
  let ?valid = "filter (\<lambda>f. \<not> skipped f) fs"
  let ?d = "item_depth path"
  let ?st = "(stats s)\<lparr>depth_max := max (depth_max (stats s)) ?d\<rparr>"
  let ?fi0 = "\<lparr>file_count = length ?valid, subfolder_count = length dirs, files = [], depth = ?d\<rparr>"
  show "depth_max (stats s') = max (depth_max (stats s)) (item_depth (fst item))"
  proof (cases "recorded item")
    case False
    with assms item show ?thesis
      by (auto simp: visit_def Let_def recorded_def item_depth_def)
  next
    case True
    with assms item obtain fi st' where
      loop: "for_each add_file ?valid (?fi0, ?st) = Inr (fi, st')"
      and s': "stats s' = (if rel_path_of path \<noteq> [] then st'\<lparr>total_folders := total_folders st' + 1\<rparr> else st')"
      by (auto simp: visit_def Let_def recorded_def item_depth_def split: sum.splits if_splits)
    from add_files_effect [OF loop] s' item show ?thesis by auto
  qed
  show "\<exists>fi. folders s' = dict_set (item_key item) fi (folders s)
             \<and> file_count fi = length (files fi)
             \<and> total_files (stats s') = total_files (stats s) + length (files fi)"
    if "recorded item"
  proof -
    from that assms item obtain fi st' where
      loop: "for_each add_file ?valid (?fi0, ?st) = Inr (fi, st')"
      and s': "stats s' = (if rel_path_of path \<noteq> [] then st'\<lparr>total_folders := total_folders st' + 1\<rparr> else st')"
      and f': "folders s' = dict_set (folder_key path) fi (folders s)"
      by (auto simp: visit_def Let_def recorded_def item_depth_def folder_key_def
          split: sum.splits if_splits)
    from add_files_effect [OF loop] s' f' item show ?thesis by (auto simp: item_key_def)
  qed
  show "folders s' = folders s \<and> total_files (stats s') = total_files (stats s)"
    if "\<not> recorded item"
    using that assms item by (auto simp: visit_def Let_def recorded_def)
qed

subsection \<open>The dictionary\<close>

lemma dict_set_fresh: "k \<notin> set (map fst d) \<Longrightarrow> dict_set k v d = d @ [(k, v)]"
  by (induction d) auto

lemma dict_set_map_fst:
  "map fst (dict_set k v d) = (if k \<in> set (map fst d) then map fst d else map fst d @ [k])"
  by (induction k v d rule: dict_set.induct) (simp_all del: set_map)

lemma dict_set_keys: "set (map fst (dict_set k v d)) = insert k (set (map fst d))"
  by (simp only: dict_set_map_fst) (simp del: set_map add: insert_absorb)

subsection \<open>The loop over the directories\<close>

lemma visit_keys:
  assumes "visit item s = Inr s'"
  shows "set (map fst (folders s')) =
           (if recorded item then insert (item_key item) (set (map fst (folders s)))
            else set (map fst (folders s)))"
proof (cases "recorded item")
  case True
  from visit_effect(2) [OF assms True] obtain fi
    where "folders s' = dict_set (item_key item) fi (folders s)" by blast
  with True show ?thesis by (simp only: dict_set_keys if_True)
next
  case False
  from visit_effect(3) [OF assms False] False show ?thesis by simp
qed

lemma visit_sum:
  assumes "visit item s = Inr s'" "item_key item \<notin> set (map fst (folders s))"
    and "total_files (stats s) = files_sum (folders s)"
    and "total_files (stats s) = count_sum (folders s)"
  shows "total_files (stats s') = files_sum (folders s')
         \<and> total_files (stats s') = count_sum (folders s')"
proof (cases "recorded item")
  case True
  from visit_effect(2) [OF assms(1) True] obtain fi
    where fi: "folders s' = dict_set (item_key item) fi (folders s)"
      "file_count fi = length (files fi)"
      "total_files (stats s') = total_files (stats s) + length (files fi)" by blast
  from fi(1) dict_set_fresh [OF assms(2)] have "folders s' = folders s @ [(item_key item, fi)]"
    by simp
  with fi(2,3) assms(3,4) show ?thesis by (simp add: files_sum_def count_sum_def)
next
  case False
  from visit_effect(3) [OF assms(1) False] assms(3,4) show ?thesis by simp
qed

lemma scan_loop_sum:
  assumes "for_each visit items s = Inr s'"
    and "distinct (map item_key items)"
    and "\<forall>item\<in>set items. item_key item \<notin> set (map fst (folders s))"
    and "total_files (stats s) = files_sum (folders s)"
    and "total_files (stats s) = count_sum (folders s)"
  shows "total_files (stats s') = files_sum (folders s')
         \<and> total_files (stats s') = count_sum (folders s')"
  using assms
proof (induction items arbitrary: s)
  case Nil
  then show ?case by simp
next
  case (Cons item items)
  from Cons.prems(1) obtain s1 where v: "visit item s = Inr s1"
    and r: "for_each visit items s1 = Inr s'"
    by (auto split: sum.splits)
  have fresh: "item_key item \<notin> set (map fst (folders s))"
    using Cons.prems(3) by simp
  have d: "distinct (map item_key items)" and n: "item_key item \<notin> item_key ` set items"
    using Cons.prems(2) by simp_all
  have "item_key it \<notin> set (map fst (folders s1))" if "it \<in> set items" for it
  proof -
    from that n have "item_key it \<noteq> item_key item" by (auto simp: image_iff)
    moreover from that Cons.prems(3) have "item_key it \<notin> set (map fst (folders s))" by simp
    ultimately show ?thesis using visit_keys [OF v] by (simp split: if_splits)
  qed
  then have "\<forall>it\<in>set items. item_key it \<notin> set (map fst (folders s1))" by blast
  with Cons.IH [OF r d] visit_sum [OF v fresh Cons.prems(4,5)] show ?case by blast
qed

lemma scan_loop_keys:
  "for_each visit items s = Inr s' \<Longrightarrow>
     set (map fst (folders s')) =
       set (map fst (folders s)) \<union> item_key ` {item \<in> set items. recorded item}"
proof (induction items arbitrary: s)
  case Nil
  then show ?case by simp
next
  case (Cons item items)
  from Cons.prems obtain s1 where v: "visit item s = Inr s1"
    and r: "for_each visit items s1 = Inr s'"
    by (auto split: sum.splits)
  have "{it \<in> set (item # items). recorded it} =
      (if recorded item then insert item {it \<in> set items. recorded it}
       else {it \<in> set items. recorded it})" by auto
  with Cons.IH [OF r] visit_keys [OF v] show ?case by (simp split: if_splits) blast?
qed

lemma fold_max_max: "fold max xs (max a b) = max a (fold max xs (b::nat))"
proof (induction xs arbitrary: b)
  case Nil
  show ?case by simp
next
  case (Cons x xs)
  have "max x (max a b) = max a (max x b)" by (simp add: max.left_commute)
  with Cons.IH [of "max x b"] show ?case by simp
qed

lemma scan_loop_depth:
  "for_each visit items s = Inr s' \<Longrightarrow>
     depth_max (stats s') = fold max (map (\<lambda>item. item_depth (fst item)) items) (depth_max (stats s))"
proof (induction items arbitrary: s)
  case Nil
  then show ?case by simp
next
  case (Cons item items)
  from Cons.prems obtain s1 where v: "visit item s = Inr s1"
    and r: "for_each visit items s1 = Inr s'"
    by (auto split: sum.splits)
  from Cons.IH [OF r] visit_effect(1) [OF v] show ?case by (simp add: max.commute)
qed

lemma walk_depth:
  "fold max (map (\<lambda>item. length (fst item)) (walk p t)) m
     = (if is_Dir t then max m (max_depth_from (length p) t) else m)"
proof (induction p t arbitrary: m rule: walk.induct)
  case (1 path n fs ds)
  let ?dirs = "filter (\<lambda>d. \<not> skipped (dir_name d)) ds"
  have inner: "fold max (map (\<lambda>item. length (fst item))
                 (concat (map (\<lambda>d. walk (path @ [dir_name d]) d) dirs))) a
             = fold max (map (max_depth_from (Suc (length path))) (filter is_Dir dirs)) a"
    if "set dirs \<subseteq> set ?dirs" for dirs a
    using that
  proof (induction dirs arbitrary: a)
    case Nil
    then show ?case by simp
  next
    case (Cons d dirs)
    then have "d \<in> set ?dirs" by simp
    from "1.IH" [OF refl this] Cons show ?case by (simp add: max.commute)
  qed
  have "filter is_Dir ?dirs = filter (\<lambda>d. \<not> skipped (dir_name d) \<and> is_Dir d) ds"
    by simp
  with inner [of ?dirs "max (length path) m"] show ?case
    by (simp add: Let_def fold_max_max max.commute)
next
  case (2 path n)
  show ?case by simp
qed

lemma fold_max_ge: "(k::nat) \<le> fold max xs k"
proof (induction xs arbitrary: k)
  case Nil
  show ?case by simp
next
  case (Cons x xs)
  have "k \<le> max x k" by simp
  also have "\<dots> \<le> fold max xs (max x k)" by (rule Cons.IH)
  finally show ?case by simp
qed

lemma fold_max_mem: "x \<in> set xs \<Longrightarrow> (x::nat) \<le> fold max xs k"
proof (induction xs arbitrary: k)
  case Nil
  then show ?case by simp
next
  case (Cons y ys)
  show ?case
  proof (cases "x = y")
    case True
    have "x \<le> max y k" using True by simp
    also have "\<dots> \<le> fold max ys (max y k)" by (rule fold_max_ge)
    finally show ?thesis by simp
  next
    case False
    with Cons.prems have "x \<in> set ys" by simp
    from Cons.IH [OF this] show ?thesis by simp
  qed
qed

lemma max_depth_from_ge: "k \<le> max_depth_from k t"
  by (cases t) (simp_all add: fold_max_ge)

lemma max_depth_from_root:
  "max_depth_from 0 vault = 0
     \<longleftrightarrow> filter (\<lambda>d. \<not> skipped (dir_name d) \<and> is_Dir d) (dir_subdirs vault) = []"
proof (cases vault)
  case (Dir n fs ds)
  let ?dirs = "filter (\<lambda>d. \<not> skipped (dir_name d) \<and> is_Dir d) ds"
  show ?thesis
  proof (cases "?dirs = []")
    case True
    with Dir show ?thesis by simp
  next
    case False
    then obtain d where d: "d \<in> set ?dirs" by (cases ?dirs) auto
    have "Suc 0 \<le> max_depth_from (Suc 0) d" by (rule max_depth_from_ge)
    also have "\<dots> \<le> fold max (map (max_depth_from (Suc 0)) ?dirs) 0"
      using d by (intro fold_max_mem) simp
    finally have "max_depth_from 0 vault \<noteq> 0" using Dir by simp
    with False Dir show ?thesis by simp
  qed
next
  case (Closed n)
  then show ?thesis by simp
qed

lemma walk_keys_distinct:
  assumes "wf_tree vault"
  shows "distinct (map item_key (walk [] vault))"
proof -
  have "inj_on folder_key (set (map fst (walk [] vault)))"
  proof (rule inj_onI)
    fix p q
    assume "p \<in> set (map fst (walk [] vault))" "q \<in> set (map fst (walk [] vault))"
      and eq: "folder_key p = folder_key q"
    then obtain a b where "a \<in> set (walk [] vault)" "p = fst a" "b \<in> set (walk [] vault)" "q = fst b"
      by auto
    with walk_valid [OF assms, of "[]"] have "\<forall>n\<in>set p. valid_name n" "\<forall>n\<in>set q. valid_name n"
      by simp_all
    then show "p = q" using eq by (rule folder_key_inj)
  qed
  with walk_distinct [OF assms, of "[]"]
  have "distinct (map fst (walk [] vault)) \<and> inj_on folder_key (set (map fst (walk [] vault)))"
    by blast
  then have "distinct (map folder_key (map fst (walk [] vault)))"
    by (rule distinct_map [THEN iffD2])
  moreover have "item_key = (\<lambda>item. folder_key (fst item))"
    by (simp add: fun_eq_iff item_key_def)
  ultimately show ?thesis by (simp add: comp_def)
qed

lemma example_vault_wf: "wf_tree example_vault"
  by code_simp

lemma example_vault_scans:
  "scan_vault example_now example_vault = Inr (projr (scan_vault example_now example_vault))"
proof -
  have "\<not> isl (scan_vault example_now example_vault)"
    by code_simp
  then show ?thesis by (cases "scan_vault example_now example_vault") simp_all
qed

section \<open>Lemmas on the redactor\<close>

text \<open>Two entries of the test suite of RFC 1321: the digests of the empty message and of \<open>abc\<close>.\<close>

lemma md5_test_suite:
  "hexdigest [] = ustr ''d41d8cd98f00b204e9800998ecf8427e''"
  "hexdigest [0x61, 0x62, 0x63] = ustr ''900150983cd24fb0d6963f7d28e17f72''"
  by code_simp+

lemma le_bytes_length: "length (le_bytes n w) = n"
  by (simp add: le_bytes_def)

lemma md5_digest_length: "length (md5_digest msg) = 16"
  by (simp add: md5_digest_def Let_def le_bytes_length split: prod.splits)

lemma hex_digit_lower: "n < 16 \<Longrightarrow> is_lower_hex (hex_digit n)"
  by (auto simp: hex_digit_def is_lower_hex_def)

lemma hex_byte_lower: "c \<in> set (hex_byte b) \<Longrightarrow> is_lower_hex c"
proof -
  have "unat b < 2 ^ LENGTH(8)" by (rule unsigned_less)
  then have "unat b < 256" by simp
  then have "unat b div 16 < 16" "unat b mod 16 < 16" by simp_all
  then show "c \<in> set (hex_byte b) \<Longrightarrow> is_lower_hex c"
    by (auto simp: hex_byte_def hex_digit_lower)
qed

lemma hexdigest_lower: "c \<in> set (hexdigest msg) \<Longrightarrow> is_lower_hex c"
  by (auto simp: hexdigest_def hex_byte_lower)

lemma hexdigest_length: "length (hexdigest msg) = 32"
proof -
  have "length (concat (map hex_byte bs)) = 2 * length bs" for bs
    by (induction bs) (simp_all add: hex_byte_def)
  then show ?thesis by (simp add: hexdigest_def md5_digest_length)
qed

lemma short_hash:
  "length (take 6 (hexdigest msg)) = 6 \<and> (\<forall>c\<in>set (take 6 (hexdigest msg)). is_lower_hex c)"
  by (auto simp: hexdigest_length dest: in_set_takeD hexdigest_lower)



lemma ustr_neq:
  "ustr ''daily_note'' \<noteq> ustr ''standard''" "ustr ''weekly_note'' \<noteq> ustr ''standard''"
  "ustr ''zettelkasten'' \<noteq> ustr ''standard''" "ustr ''timestamp'' \<noteq> ustr ''standard''"
  "ustr ''uuid'' \<noteq> ustr ''standard''" "ustr ''numbered_prefix'' \<noteq> ustr ''standard''"
  "ustr ''daily_note'' \<noteq> ustr ''numbered_prefix''" "ustr ''weekly_note'' \<noteq> ustr ''numbered_prefix''"
  "ustr ''zettelkasten'' \<noteq> ustr ''numbered_prefix''" "ustr ''timestamp'' \<noteq> ustr ''numbered_prefix''"
  "ustr ''uuid'' \<noteq> ustr ''numbered_prefix''"
  by (simp_all add: ustr_def)

lemma redact_fixed:
  assumes "pattern_type \<in> set (map ustr [''daily_note'', ''weekly_note'', ''zettelkasten'', ''timestamp'', ''uuid''])"
  shows "\<exists>l\<in>set fixed_literals. redact_filename filename pattern_type = Inr (l @ path_suffix filename)"
proof -
  from assms consider "pattern_type = ustr ''daily_note''" | "pattern_type = ustr ''weekly_note''"
    | "pattern_type = ustr ''zettelkasten''" | "pattern_type = ustr ''timestamp''"
    | "pattern_type = ustr ''uuid''" by auto
  then show ?thesis
  proof cases
    case 1
    then have "redact_filename filename pattern_type = Inr (ustr ''2024-01-15'' @ path_suffix filename)
       \<or> redact_filename filename pattern_type = Inr (ustr ''2024.01.15'' @ path_suffix filename)"
      by (simp add: redact_filename_def Let_def)
    then show ?thesis by (auto simp: fixed_literals_def)
  next
    case 2
    then have "redact_filename filename pattern_type = Inr (ustr ''2024-W03'' @ path_suffix filename)"
      by (simp add: redact_filename_def Let_def ustr_def)
    then show ?thesis by (simp add: fixed_literals_def)
  next
    case 3
    then have "redact_filename filename pattern_type = Inr (ustr ''20240115143022'' @ path_suffix filename)"
      by (simp add: redact_filename_def Let_def ustr_def)
    then show ?thesis by (simp add: fixed_literals_def)
  next
    case 4
    then have "redact_filename filename pattern_type = Inr (ustr ''202401151430'' @ path_suffix filename)"
      by (simp add: redact_filename_def Let_def ustr_def)
    then show ?thesis by (simp add: fixed_literals_def)
  next
    case 5
    then have "redact_filename filename pattern_type
        = Inr (ustr ''xxxxxxxx-xxxx-xxxx-xxxx-xxxxxxxxxxxx'' @ path_suffix filename)"
      by (simp add: redact_filename_def Let_def ustr_def)
    then show ?thesis by (simp add: fixed_literals_def)
  qed
qed

lemma redact_fallthrough:
  assumes "pattern_type \<notin> set (map ustr [''daily_note'', ''weekly_note'', ''zettelkasten'',
             ''timestamp'', ''numbered_prefix'', ''uuid''])
           \<or> (pattern_type = ustr ''numbered_prefix'' \<and> re_numbered_prefix (path_stem filename) = None)"
  shows "redact_filename filename pattern_type
           = standard_placeholder (path_stem filename) (path_suffix filename)"
  using assms by (auto simp: redact_filename_def Let_def ustr_neq) (simp_all add: ustr_def)

lemma redact_numbered:
  assumes "re_numbered_prefix (path_stem filename) = Some pre"
  shows "redact_filename filename (ustr ''numbered_prefix'')
           = Inr (pre @ ustr ''[Redacted Title]'' @ path_suffix filename)"
  using assms by (simp add: redact_filename_def Let_def) (simp add: ustr_def)

section \<open>Lemmas on the examples of a folder\<close>

lemma examples_loop_props:
  assumes "examples_loop fs shown seen = (rows, n)"
  shows "n = shown + length rows \<and> (shown < 5 \<longrightarrow> n \<le> 5) \<and> subseq rows fs
       \<and> take (3 - shown) rows = take (3 - shown) fs
       \<and> (\<forall>i<length rows. 3 \<le> shown + i \<longrightarrow>
             pattern (rows ! i) \<notin> seen \<union> pattern ` set (take i rows))
       \<and> (n < 5 \<longrightarrow> pattern ` set fs \<subseteq> seen \<union> pattern ` set rows)"
  using assms
proof (induction fs arbitrary: shown seen rows n)
  case Nil
  then show ?case by simp
next
  case (Cons f fs)
  show ?case
  proof (cases "pattern f \<notin> seen \<or> shown < 3")
    case emit: True
    show ?thesis
    proof (cases "shown + 1 \<ge> 5")
      case True
      with emit Cons.prems have "rows = [f]" "n = shown + 1" by auto
      with True emit show ?thesis by auto
    next
      case False
      with emit Cons.prems obtain rows' where
        r: "examples_loop fs (shown + 1) (insert (pattern f) seen) = (rows', n)"
        and rows: "rows = f # rows'"
        by (auto split: prod.splits)
      note IH = Cons.IH [OF r]
      have "n = shown + length rows" using IH rows by simp
      moreover have "shown < 5 \<longrightarrow> n \<le> 5" using IH False by simp
      moreover have "subseq rows (f # fs)" using IH rows by simp
      moreover have "take (3 - shown) rows = take (3 - shown) (f # fs)"
      proof (cases "shown < 3")
        case True
        then have "3 - shown = Suc (3 - (shown + 1))" by simp
        with IH rows show ?thesis by simp
      next
        case False
        then show ?thesis by simp
      qed
      moreover have "\<forall>i<length rows. 3 \<le> shown + i \<longrightarrow>
             pattern (rows ! i) \<notin> seen \<union> pattern ` set (take i rows)"
      proof (intro allI impI)
        fix i
        assume i: "i < length rows" "3 \<le> shown + i"
        show "pattern (rows ! i) \<notin> seen \<union> pattern ` set (take i rows)"
        proof (cases i)
          case 0
          with i emit rows show ?thesis by simp
        next
          case (Suc j)
          with i rows have "j < length rows'" "3 \<le> (shown + 1) + j" by simp_all
          with IH have "pattern (rows' ! j) \<notin> insert (pattern f) seen \<union> pattern ` set (take j rows')"
            by blast
          with Suc rows show ?thesis by simp
        qed
      qed
      moreover have "n < 5 \<longrightarrow> pattern ` set (f # fs) \<subseteq> seen \<union> pattern ` set rows"
        using IH rows by auto
      ultimately show ?thesis by blast
    qed
  next
    case skip: False
    show ?thesis
    proof (cases "shown \<ge> 5")
      case True
      with skip Cons.prems have "rows = []" "n = shown" by auto
      with True skip show ?thesis by simp
    next
      case False
      with skip Cons.prems have r: "examples_loop fs shown seen = (rows, n)" by auto
      note IH = Cons.IH [OF r]
      from IH have "subseq rows fs" by blast
      then have "subseq rows (f # fs)" by (rule list_emb_Cons)
      moreover have "take (3 - shown) rows = take (3 - shown) (f # fs)" using skip by simp
      moreover have "n < 5 \<longrightarrow> pattern ` set (f # fs) \<subseteq> seen \<union> pattern ` set rows"
        using IH skip by auto
      ultimately show ?thesis using IH by blast
    qed
  qed
qed

lemma folder_section_form:
  assumes "examples_loop (files info) 0 {} = (rows, shown)" "files info \<noteq> []"
  shows "folder_section (folder_path, info) =
           ustr ''### '' @ [0x1F4C1] @ ustr '' `''
             @ (if folder_path \<noteq> ustr ''/'' then folder_path else ustr ''(root)'')
             @ ustr ''`'' @ [10, 10]
             @ ustr ''| Redacted Name | Pattern | Type |'' @ [10]
             @ ustr ''|---------------|---------|------|'' @ [10]
             @ concat (map table_row rows)
             @ more_files_line (length (files info)) (length rows) @ [10]"
proof -
  from examples_loop_props [OF assms(1)] have n: "shown = length rows" by simp
  have "int (length (files info)) - int (length rows) > 0 \<longleftrightarrow> length (files info) > length rows"
    by auto
  moreover have "str_int (int (length (files info)) - int (length rows))
      = str_nat (length (files info) - length rows)" if "length (files info) > length rows"
    using that by (simp add: str_int_def nat_diff_distrib')
  ultimately show ?thesis
    using assms n
    by (auto simp: folder_section_def Let_def more_files_line_def)
qed

section \<open>The claims\<close>

subsection \<open>Redaction\<close>






text \<open>
  C10, as the code has it. With a pattern type that is none of the six the function
  tests for (\<open>standard\<close> and every unknown string), and with \<open>numbered_prefix\<close> on a stem
  that has no numeric prefix, \<open>redact_filename\<close> is the standard placeholder; the
  placeholder returns a string exactly when the stem holds no surrogate code point, and
  on such a stem \<open>redact_filename\<close> returns a string for every pattern type.
\<close>

theorem redact_filename_total:
  "((pattern_type \<notin> set (map ustr [''daily_note'', ''weekly_note'', ''zettelkasten'',
        ''timestamp'', ''numbered_prefix'', ''uuid''])
      \<or> (pattern_type = ustr ''numbered_prefix'' \<and> re_numbered_prefix (path_stem filename) = None))
     \<longrightarrow> redact_filename filename pattern_type
           = standard_placeholder (path_stem filename) (path_suffix filename))
   \<and> ((\<exists>r. standard_placeholder (path_stem filename) (path_suffix filename) = Inr r)
        \<longleftrightarrow> (\<forall>c\<in>set (path_stem filename). \<not> surrogate c))
   \<and> ((\<forall>c\<in>set (path_stem filename). \<not> surrogate c)
        \<longrightarrow> (\<exists>r. redact_filename filename pattern_type = Inr r))"
proof (intro conjI impI)
  assume "pattern_type \<notin> set (map ustr [''daily_note'', ''weekly_note'', ''zettelkasten'',
        ''timestamp'', ''numbered_prefix'', ''uuid''])
      \<or> (pattern_type = ustr ''numbered_prefix'' \<and> re_numbered_prefix (path_stem filename) = None)"
  then show "redact_filename filename pattern_type
           = standard_placeholder (path_stem filename) (path_suffix filename)"
    by (rule redact_fallthrough)
next
  show "(\<exists>r. standard_placeholder (path_stem filename) (path_suffix filename) = Inr r)
        \<longleftrightarrow> (\<forall>c\<in>set (path_stem filename). \<not> surrogate c)"
    by (rule standard_placeholder_ok)
next
  assume ok: "\<forall>c\<in>set (path_stem filename). \<not> surrogate c"
  consider (fixed) "pattern_type \<in> set (map ustr [''daily_note'', ''weekly_note'',
        ''zettelkasten'', ''timestamp'', ''uuid''])"
    | (numbered) pre where "pattern_type = ustr ''numbered_prefix''"
        "re_numbered_prefix (path_stem filename) = Some pre"
    | (fall) "pattern_type \<notin> set (map ustr [''daily_note'', ''weekly_note'', ''zettelkasten'',
        ''timestamp'', ''numbered_prefix'', ''uuid''])
      \<or> (pattern_type = ustr ''numbered_prefix'' \<and> re_numbered_prefix (path_stem filename) = None)"
    by (cases "re_numbered_prefix (path_stem filename)") auto
  then show "\<exists>r. redact_filename filename pattern_type = Inr r"
  proof cases
    case fixed
    from redact_fixed [OF this] show ?thesis by blast
  next
    case numbered
    from redact_numbered [OF numbered(2)] numbered(1) show ?thesis by blast
  next
    case fall
    from redact_fallthrough [OF this]
      standard_placeholder_ok [of "path_stem filename" "path_suffix filename"] ok
    show ?thesis by simp
  qed
qed

theorem redact_filename_total_witness:
  "ustr ''unknown'' \<notin> set (map ustr [''daily_note'', ''weekly_note'', ''zettelkasten'',
        ''timestamp'', ''numbered_prefix'', ''uuid''])
   \<and> \<not> list_ex surrogate (path_stem (ustr ''My Secret Note.md''))
   \<and> redact_filename (ustr ''My Secret Note.md'') (ustr ''unknown'')
       = standard_placeholder (path_stem (ustr ''My Secret Note.md''))
           (path_suffix (ustr ''My Secret Note.md''))
   \<and> (\<exists>r. redact_filename (ustr ''My Secret Note.md'') (ustr ''unknown'') = Inr r)"
proof -
  have u: "ustr ''unknown'' \<notin> set (map ustr [''daily_note'', ''weekly_note'', ''zettelkasten'',
        ''timestamp'', ''numbered_prefix'', ''uuid''])"
    by code_simp
  have s: "\<not> list_ex surrogate (path_stem (ustr ''My Secret Note.md''))"
    by code_simp
  from redact_filename_total [of "ustr ''unknown''" "ustr ''My Secret Note.md''"] u s
  show ?thesis by (simp add: list_ex_iff)
qed

text \<open>
  The claim as it is written fails on a stem with a surrogate, which a file name that is
  not valid UTF-8 has: the standard path raises \<open>UnicodeEncodeError\<close>.
\<close>

theorem surrogate_stem_counterexample:
  "redact_filename [0xDCE9, 46, 109, 100] (ustr ''unknown'') = Inl UnicodeEncodeError"
  by code_simp

subsection \<open>The examples of a folder\<close>

text \<open>
  C6, as the code has it. The section of a folder with files is its heading, the head of
  the table, one row for each shown file, the line with the number of files that are left
  when there are some, and an empty line; the number on that line is the number of files
  of the folder minus the number of rows. The rows show at most five files, in the order of
  the folder: the first three files, and then each file whose pattern type no row above it
  has, until five rows are written. When fewer than five rows are written, every pattern
  type of the folder is in a row.
\<close>

theorem folder_examples:
  assumes "examples_loop (files info) 0 {} = (rows, shown)"
  shows "shown = length rows \<and> length rows \<le> 5 \<and> subseq rows (files info)
       \<and> take 3 rows = take 3 (files info)
       \<and> (\<forall>i<length rows. 3 \<le> i \<longrightarrow> pattern (rows ! i) \<notin> pattern ` set (take i rows))
       \<and> (length rows < 5 \<longrightarrow> pattern ` set (files info) \<subseteq> pattern ` set rows)
       \<and> (files info \<noteq> [] \<longrightarrow>
            folder_section (folder_path, info) =
              ustr ''### '' @ [0x1F4C1] @ ustr '' `''
                @ (if folder_path \<noteq> ustr ''/'' then folder_path else ustr ''(root)'')
                @ ustr ''`'' @ [10, 10]
                @ ustr ''| Redacted Name | Pattern | Type |'' @ [10]
                @ ustr ''|---------------|---------|------|'' @ [10]
                @ concat (map table_row rows)
                @ more_files_line (length (files info)) (length rows) @ [10])
       \<and> (files info = [] \<longrightarrow>
            rows = [] \<and>
            folder_section (folder_path, info) =
              ustr ''### '' @ [0x1F4C1] @ ustr '' `''
                @ (if folder_path \<noteq> ustr ''/'' then folder_path else ustr ''(root)'')
                @ ustr ''`'' @ [10, 10]
                @ ustr ''*Empty folder or contains only subfolders*'' @ [10] @ [10])"
proof -
  have e: "rows = [] \<and>
            folder_section (folder_path, info) =
              ustr ''### '' @ [0x1F4C1] @ ustr '' `''
                @ (if folder_path \<noteq> ustr ''/'' then folder_path else ustr ''(root)'')
                @ ustr ''`'' @ [10, 10]
                @ ustr ''*Empty folder or contains only subfolders*'' @ [10] @ [10]"
    if "files info = []"
    using that assms by (simp add: folder_section_def Let_def)
  from examples_loop_props [OF assms] folder_section_form [OF assms, of folder_path] e
  show ?thesis by simp
qed

theorem folder_examples_witness:
  "examples_loop (files sample_folder) 0 {} = (sample_rows, 5)
   \<and> 5 = length sample_rows \<and> length sample_rows \<le> 5
   \<and> subseq sample_rows (files sample_folder)
   \<and> take 3 sample_rows = take 3 (files sample_folder)
   \<and> files sample_folder \<noteq> []
   \<and> folder_section (ustr ''Notes'', sample_folder) =
       ustr ''### '' @ [0x1F4C1] @ ustr '' `Notes`'' @ [10, 10]
         @ ustr ''| Redacted Name | Pattern | Type |'' @ [10]
         @ ustr ''|---------------|---------|------|'' @ [10]
         @ concat (map table_row sample_rows)
         @ [10] @ ustr ''*...and 2 more files*'' @ [10] @ [10]"
proof -
  have l: "examples_loop (files sample_folder) 0 {} = (sample_rows, 5)"
    by code_simp
  have m: "more_files_line (length (files sample_folder)) (length sample_rows)
       = [10] @ ustr ''*...and 2 more files*'' @ [10]"
    by code_simp
  have f: "files sample_folder \<noteq> []"
    by code_simp
  have p: "ustr ''Notes'' \<noteq> ustr ''/''" "ustr '' `'' @ ustr ''Notes'' @ ustr ''`'' = ustr '' `Notes`''"
    by (simp_all add: ustr_def)
  from folder_examples [OF l, of "ustr ''Notes''"] l m f p show ?thesis by simp
qed

text \<open>
  The claim as it is written fails on the sample folder: its seventh file is the only one
  of type \<open>uuid\<close> and is not shown, and of its first four files only three are shown,
  with room for five.
\<close>

theorem folder_examples_counterexample:
  "map pattern (fst (examples_loop sample_files 0 {}))
     = map ustr [''standard'', ''standard'', ''standard'', ''daily_note'', ''weekly_note'']
   \<and> ustr ''uuid'' \<in> set (map pattern sample_files)
   \<and> length (take 4 sample_files) = 4
   \<and> map pattern (fst (examples_loop (take 4 sample_files) 0 {}))
       = map ustr [''standard'', ''standard'', ''standard'']"
  by code_simp

subsection \<open>Classification and redaction of UUID names\<close>

text \<open>
  C2, as the code has it. For a file name whose stem has the canonical UUID shape,
  \<open>detect_filename_pattern\<close> returns \<open>uuid\<close> when the first group of eight hexadecimal
  digits holds at least one letter; when the first group is made of decimal digits only,
  the rule for numbered prefixes, which comes first, takes the name and the result is
  \<open>numbered_prefix\<close>. With the type \<open>uuid\<close>, \<open>redact_filename\<close> returns the fixed literal
  followed by the extension, for every file name.
\<close>

theorem uuid_classification:
  assumes "uuid_shape (path_stem filename)"
  shows "detect_filename_pattern filename =
           (if list_all (\<lambda>c. 48 \<le> c \<and> c \<le> 57) (take 8 (path_stem filename))
            then (ustr ''numbered_prefix'', ustr ''NNN - [Title]'')
            else (ustr ''uuid'', ustr ''UUID''))
       \<and> redact_filename filename (ustr ''uuid'')
           = Inr (ustr ''xxxxxxxx-xxxx-xxxx-xxxx-xxxxxxxxxxxx'' @ path_suffix filename)"
proof -
  let ?s = "path_stem filename"
  from assms obtain a b where s: "?s = a @ 45 # b" "length a = 8" "\<forall>c\<in>set a. is_hex c"
    by (rule uuid_shape_head)
  have len: "length ?s = 36" using assms by (rule uuid_shape_length)
  have no: "\<not> re_seq re_date_hyphen ?s" "\<not> re_seq re_date_dot ?s" "\<not> re_seq re_date_us ?s"
    "\<not> re_seq re_week ?s" "\<not> re_seq (replicate 14 is_decimal) ?s"
    "\<not> re_seq (replicate 12 is_decimal) ?s"
    using len
    by (auto dest!: re_seq_length
        simp: re_date_hyphen_def re_date_dot_def re_date_us_def re_week_def)
  have uu: "re_seq re_uuid ?s"
    using assms by (simp add: uuid_shape_def re_seq_exact)
  have "a \<noteq> []" using s(2) by auto
  from numbered_prefix_uuid [OF s(3) this, of b] s(1,2)
  have np: "re_numbered_prefix ?s \<noteq> None
      \<longleftrightarrow> list_all (\<lambda>c. 48 \<le> c \<and> c \<le> 57) (take 8 ?s)"
    by (simp add: list_all_iff)
  have "detect_filename_pattern filename =
           (if list_all (\<lambda>c. 48 \<le> c \<and> c \<le> 57) (take 8 ?s)
            then (ustr ''numbered_prefix'', ustr ''NNN - [Title]'')
            else (ustr ''uuid'', ustr ''UUID''))"
    using no uu np by (simp add: detect_filename_pattern_def Let_def)
  moreover have "redact_filename filename (ustr ''uuid'')
           = Inr (ustr ''xxxxxxxx-xxxx-xxxx-xxxx-xxxxxxxxxxxx'' @ path_suffix filename)"
    by (simp add: redact_filename_def Let_def ustr_def)
  ultimately show ?thesis by blast
qed

theorem uuid_classification_witness:
  "uuid_shape (path_stem (ustr ''a1b2c3d4-e5f6-7890-abcd-ef1234567890.png''))
   \<and> detect_filename_pattern (ustr ''a1b2c3d4-e5f6-7890-abcd-ef1234567890.png'')
       = (ustr ''uuid'', ustr ''UUID'')
   \<and> redact_filename (ustr ''a1b2c3d4-e5f6-7890-abcd-ef1234567890.png'') (ustr ''uuid'')
       = Inr (ustr ''xxxxxxxx-xxxx-xxxx-xxxx-xxxxxxxxxxxx.png'')"
proof -
  have h: "uuid_shape (path_stem (ustr ''a1b2c3d4-e5f6-7890-abcd-ef1234567890.png''))"
    by code_simp
  have d: "\<not> list_all (\<lambda>c. 48 \<le> c \<and> c \<le> 57)
      (take 8 (path_stem (ustr ''a1b2c3d4-e5f6-7890-abcd-ef1234567890.png'')))"
    by code_simp
  have e: "path_suffix (ustr ''a1b2c3d4-e5f6-7890-abcd-ef1234567890.png'') = ustr ''.png''"
    by code_simp
  have c: "ustr ''xxxxxxxx-xxxx-xxxx-xxxx-xxxxxxxxxxxx'' @ ustr ''.png''
      = ustr ''xxxxxxxx-xxxx-xxxx-xxxx-xxxxxxxxxxxx.png''"
    by (simp add: ustr_def)
  from uuid_classification [OF h] h d e c show ?thesis by simp
qed

text \<open>
  The claim as it is written fails on a UUID whose first group has no letter: the stem
  has the shape, and the pattern type is \<open>numbered_prefix\<close>.
\<close>

theorem uuid_with_digit_group_counterexample:
  "uuid_shape (path_stem (ustr ''12345678-1234-1234-1234-123456789abc.md''))
   \<and> detect_filename_pattern (ustr ''12345678-1234-1234-1234-123456789abc.md'')
       = (ustr ''numbered_prefix'', ustr ''NNN - [Title]'')
   \<and> ustr ''numbered_prefix'' \<noteq> ustr ''uuid''"
  by code_simp

subsection \<open>The aggregation of scan_vault\<close>

text \<open>
  C3. When \<open>scan_vault\<close> completes on a directory tree, \<open>total_files\<close> is the sum of the
  lengths of the \<open>files\<close> lists of the folder mapping, and also the sum of their
  \<open>file_count\<close> fields.
\<close>

theorem total_files_consistent:
  assumes "scan_vault now vault = Inr s" and "wf_tree vault"
  shows "total_files (stats s) = sum_list (map (\<lambda>(k, info). length (files info)) (folders s))
       \<and> total_files (stats s) = sum_list (map (\<lambda>(k, info). file_count info) (folders s))"
proof -
  from assms(1) have "total_files (stats s) = files_sum (folders s)
      \<and> total_files (stats s) = count_sum (folders s)"
    unfolding scan_vault_def
    by (rule scan_loop_sum) (simp_all add: walk_keys_distinct [OF assms(2)] files_sum_def count_sum_def)
  then show ?thesis unfolding files_sum_def count_sum_def case_prod_unfold .
qed

theorem total_files_consistent_witness:
  "wf_tree example_vault
   \<and> scan_vault example_now example_vault = Inr (projr (scan_vault example_now example_vault))
   \<and> total_files (stats (projr (scan_vault example_now example_vault)))
       = sum_list (map (\<lambda>(k, info). length (files info))
           (folders (projr (scan_vault example_now example_vault))))
   \<and> total_files (stats (projr (scan_vault example_now example_vault))) = 4"
proof -
  have n: "total_files (stats (projr (scan_vault example_now example_vault))) = 4"
    by code_simp
  from total_files_consistent [OF example_vault_scans example_vault_wf]
    example_vault_scans n example_vault_wf
  show ?thesis by simp
qed

text \<open>
  C4. A subdirectory whose name is in the skip list or begins with a dot is left out before
  the walk descends: the scan of a vault is the scan of the vault without these
  subdirectories, whatever they hold, so nothing below them reaches a folder entry or a
  counter.
\<close>

theorem skipped_subtrees_excluded: "scan_vault now (prune vault) = scan_vault now vault"
proof -
  have "dir_name (prune vault) = dir_name vault" by (cases vault) simp_all
  then show ?thesis by (simp add: scan_vault_def walk_prune)
qed

theorem skipped_subtrees_excluded_witness:
  "prune example_vault =
     Dir (ustr ''MyVault'') [ustr ''.hidden'', ustr ''2024-W03.md'']
       [Dir (ustr ''Journal'') [ustr ''2024-01-15.md'', ustr ''2024-01-16.md''] [],
        Dir (ustr ''Inbox'') [ustr ''a1b2c3d4-e5f6-7890-abcd-ef1234567890.png'']
          [Dir (ustr ''deep'') [] [Dir (ustr ''empty'') [] []]]]
   \<and> scan_vault example_now (prune example_vault) = scan_vault example_now example_vault"
proof -
  have "prune example_vault =
     Dir (ustr ''MyVault'') [ustr ''.hidden'', ustr ''2024-W03.md'']
       [Dir (ustr ''Journal'') [ustr ''2024-01-15.md'', ustr ''2024-01-16.md''] [],
        Dir (ustr ''Inbox'') [ustr ''a1b2c3d4-e5f6-7890-abcd-ef1234567890.png'']
          [Dir (ustr ''deep'') [] [Dir (ustr ''empty'') [] []]]]"
    by code_simp
  with skipped_subtrees_excluded [of example_now example_vault] show ?thesis by simp
qed

text \<open>
  C5, as the code has it. When \<open>scan_vault\<close> completes, \<open>depth_max\<close> is the largest depth
  of a directory that the walk yields, whether the directory holds a countable file or
  not: the root, and below a yielded directory each subdirectory that is not skipped, is
  not a symbolic link and can be listed. The depth is the number of directories on the way
  from the root, which is at depth 0. So \<open>depth_max\<close> is 0 exactly when the root has no
  such subdirectory.
\<close>

theorem depth_max_is_deepest_directory:
  assumes "scan_vault now vault = Inr s" and "wf_tree vault"
  shows "depth_max (stats s) = max_depth_from 0 vault
       \<and> (depth_max (stats s) = 0
            \<longleftrightarrow> filter (\<lambda>d. \<not> skipped (dir_name d) \<and> is_Dir d) (dir_subdirs vault) = [])"
proof -
  have "map (\<lambda>item. item_depth (fst item)) (walk [] vault)
      = map (\<lambda>item. length (fst item)) (walk [] vault)"
    by (rule map_cong [OF refl]) (use walk_valid [OF assms(2), of "[]"] in \<open>simp add: item_depth_valid\<close>)
  with scan_loop_depth [OF assms(1) [unfolded scan_vault_def]]
  have "depth_max (stats s) = fold max (map (\<lambda>item. length (fst item)) (walk [] vault)) 0"
    by simp
  with walk_depth [of "[]" vault 0] have "depth_max (stats s) = max_depth_from 0 vault"
    by (cases vault) simp_all
  with max_depth_from_root [of vault] show ?thesis by simp
qed

theorem depth_max_is_deepest_directory_witness:
  "wf_tree example_vault
   \<and> scan_vault example_now example_vault = Inr (projr (scan_vault example_now example_vault))
   \<and> depth_max (stats (projr (scan_vault example_now example_vault)))
       = max_depth_from 0 example_vault
   \<and> max_depth_from 0 example_vault = 3
   \<and> wf_tree linked_vault
   \<and> scan_vault example_now linked_vault = Inr (projr (scan_vault example_now linked_vault))
   \<and> depth_max (stats (projr (scan_vault example_now linked_vault)))
       = max_depth_from 0 linked_vault
   \<and> max_depth_from 0 linked_vault = 0
   \<and> map fst (folders (projr (scan_vault example_now linked_vault))) = [ustr ''/'']"
proof -
  have n: "max_depth_from 0 example_vault = 3" "max_depth_from 0 linked_vault = 0"
    by code_simp+
  have w: "wf_tree linked_vault"
    by code_simp
  have "\<not> isl (scan_vault example_now linked_vault)"
    by code_simp
  then have l: "scan_vault example_now linked_vault
      = Inr (projr (scan_vault example_now linked_vault))"
    by (cases "scan_vault example_now linked_vault") simp_all
  have k: "map fst (folders (projr (scan_vault example_now linked_vault))) = [ustr ''/'']"
    by code_simp
  from depth_max_is_deepest_directory [OF example_vault_scans example_vault_wf]
    depth_max_is_deepest_directory [OF l w]
    example_vault_scans n example_vault_wf l w k
  show ?thesis by simp
qed

text \<open>
  The claim as it is written fails on a vault whose only file is at the root, beside an
  empty subdirectory: the largest depth of a directory with a countable file is 0, and
  \<open>depth_max\<close> is 1.
\<close>

theorem depth_max_counterexample:
  "map_sum id (\<lambda>s. depth_max (stats s)) (scan_vault example_now shallow_vault) = Inr 1
   \<and> max_file_depth shallow_vault = 0"
  by code_simp

text \<open>
  C8. When \<open>scan_vault\<close> completes, a directory of the vault with no countable file and no
  subdirectory that the walk keeps is not a key of the folder mapping.
\<close>

theorem empty_directories_not_recorded:
  assumes "scan_vault now vault = Inr s" and "wf_tree vault"
    and "dir_at vault path = Some d"
    and "filter (\<lambda>f. \<not> skipped f) (dir_files d) = []"
    and "filter (\<lambda>d. \<not> skipped (dir_name d)) (dir_subdirs d) = []"
  shows "folder_key path \<notin> set (map fst (folders s))"
proof
  assume "folder_key path \<in> set (map fst (folders s))"
  with scan_loop_keys [OF assms(1) [unfolded scan_vault_def]]
  obtain item where item: "item \<in> set (walk [] vault)" "recorded item"
    and key: "folder_key path = item_key item"
    by auto
  from walk_dir_at [OF assms(2) item(1)] obtain d' where d':
    "dir_at vault (fst item) = Some d'"
    "fst (snd item) = map dir_name (filter (\<lambda>d. \<not> skipped (dir_name d)) (dir_subdirs d'))"
    "snd (snd item) = dir_files d'"
    by auto
  have "\<forall>n\<in>set (fst item). valid_name n"
    using walk_valid [OF assms(2) _ item(1)] by simp
  moreover have "\<forall>n\<in>set path. valid_name n"
    using dir_at_valid [OF assms(2,3)] .
  ultimately have "path = fst item"
    using key by (intro folder_key_inj) (simp_all add: item_key_def)
  with d'(1) assms(3) have "d' = d" by simp
  with d'(2,3) assms(4,5) item(2) show False by (simp add: recorded_def)
qed

theorem empty_directories_not_recorded_witness:
  "wf_tree example_vault
   \<and> scan_vault example_now example_vault = Inr (projr (scan_vault example_now example_vault))
   \<and> dir_at example_vault [ustr ''Inbox'', ustr ''deep'', ustr ''empty'']
       = Some (Dir (ustr ''empty'') [] [])
   \<and> folder_key [ustr ''Inbox'', ustr ''deep'', ustr ''empty''] = ustr ''Inbox/deep/empty''
   \<and> ustr ''Inbox/deep/empty''
       \<notin> set (map fst (folders (projr (scan_vault example_now example_vault))))"
proof -
  have d: "dir_at example_vault [ustr ''Inbox'', ustr ''deep'', ustr ''empty'']
       = Some (Dir (ustr ''empty'') [] [])"
    by code_simp
  have k: "folder_key [ustr ''Inbox'', ustr ''deep'', ustr ''empty''] = ustr ''Inbox/deep/empty''"
    by code_simp
  from empty_directories_not_recorded [OF example_vault_scans example_vault_wf d]
    example_vault_scans example_vault_wf d k
  show ?thesis by simp
qed

end
